theory Spec2Isabelle
  imports Main "HOL-Library.Sublist" "HOL-Library.Code_Target_Nat"
begin

section \<open>JavaScript strings\<close>

text \<open>
  A JavaScript string is a sequence of UTF-16 code units. A code unit is modelled as a
  natural number (below 65536 in every string the engine builds), a string as the list
  of its code units. \<open>str\<close> embeds an ASCII literal.
\<close>

type_synonym jsstring = "nat list"

definition str :: "string \<Rightarrow> jsstring" where
  "str s = map of_char s"

text \<open>
  \<open>String.prototype.trim\<close> removes WhiteSpace and LineTerminator code units from both
  ends: TAB, LF, VT, FF, CR, SP, NBSP, U+1680, U+2000..U+200A, U+2028, U+2029, U+202F,
  U+205F, U+3000 and U+FEFF.
\<close>

definition js_space :: "nat \<Rightarrow> bool" where
  "js_space c \<longleftrightarrow>
     c = 9 \<or> c = 10 \<or> c = 11 \<or> c = 12 \<or> c = 13 \<or> c = 32 \<or> c = 160 \<or> c = 5760 \<or>
     (8192 \<le> c \<and> c \<le> 8202) \<or> c = 8232 \<or> c = 8233 \<or> c = 8239 \<or> c = 8287 \<or>
     c = 12288 \<or> c = 65279"

definition trim :: "jsstring \<Rightarrow> jsstring" where
  "trim s = rev (dropWhile js_space (rev (dropWhile js_space s)))"

text \<open>
  \<open>s.replace(/pat/g, rep)\<close> for a pattern that is a literal, non-empty string and a
  replacement without \<open>$\<close>: the text is scanned from the left, every match is replaced
  and the scan resumes after the match. (For the empty pattern the engine inserts the
  replacement at every position.)
\<close>

function replace_all :: "jsstring \<Rightarrow> jsstring \<Rightarrow> jsstring \<Rightarrow> jsstring" where
  "replace_all pat rep [] = (if pat = [] then rep else [])"
| "replace_all pat rep (c # cs) =
     (if pat = [] then rep @ c # replace_all pat rep cs
      else if prefix pat (c # cs) then rep @ replace_all pat rep (drop (length pat) (c # cs))
      else c # replace_all pat rep cs)"
  by pat_completeness auto
termination
  by (relation "measure (\<lambda>(pat, rep, s). length s)") auto

text \<open>\<open>s.split('\n')\<close>: the pieces between line feeds; the empty string gives one empty piece.\<close>

fun split_lines :: "jsstring \<Rightarrow> jsstring list" where
  "split_lines [] = [[]]"
| "split_lines (c # cs) =
     (if c = 10 then [] # split_lines cs
      else (case split_lines cs of [] \<Rightarrow> [[c]] | l # ls \<Rightarrow> (c # l) # ls))"

text \<open>\<open>s.indexOf(c)\<close> for a single code unit: the first position, or \<open>-1\<close>.\<close>

fun indexOf :: "jsstring \<Rightarrow> nat \<Rightarrow> int" where
  "indexOf [] c = -1"
| "indexOf (x # xs) c =
     (if x = c then 0 else (let i = indexOf xs c in if i < 0 then -1 else i + 1))"

text \<open>\<open>s.substring(start)\<close>: a negative start counts as 0, one past the end as the length.\<close>

definition substring :: "jsstring \<Rightarrow> int \<Rightarrow> jsstring" where
  "substring s start = drop (nat (max 0 start)) s"


section \<open>JSON values\<close>

text \<open>
  A number is kept as the decimal \<open>m * 10 ^ e\<close> its literal denotes, in a normal form
  with \<open>e \<le> 0\<close>, so that the integer \<open>n\<close> is \<open>JNumber n 0\<close>. The engine rounds a literal to
  the nearest double; the two agree on every literal of at most 15 significant digits
  within the double range, in particular on integers of that size. An object is the list
  of its own properties in creation order, each key once.
\<close>

datatype json =
    JNull
  | JBool bool
  | JNumber int int
  | JString jsstring
  | JArray "json list"
  | JObject "(jsstring \<times> json) list"

text \<open>A JavaScript value read out of such data: \<open>None\<close> is \<open>undefined\<close>.\<close>

type_synonym jsval = "json option"

text \<open>
  Errors. \<open>Error m\<close> is thrown by the program with message \<open>m\<close>. The others are raised by
  the engine, which also words their messages: \<open>TypeError p\<close> on reading or calling
  property \<open>p\<close> of a value that does not have it as the code needs it (with
  \<open>p = toString\<close>: on converting to a string an object that has no callable \<open>toString\<close>),
  \<open>SyntaxError t\<close> when \<open>JSON.parse\<close> rejects the text \<open>t\<close>, \<open>FetchFailed\<close> when \<open>fetch\<close>
  rejects.
\<close>

datatype js_error =
    Error jsstring
  | TypeError jsstring
  | SyntaxError jsstring
  | FetchFailed

definition error_message :: "(js_error \<Rightarrow> jsstring) \<Rightarrow> js_error \<Rightarrow> jsstring" where
  "error_message engine e = (case e of Error m \<Rightarrow> m | _ \<Rightarrow> engine e)"

subsection \<open>Parsing: \<open>JSON.parse\<close>\<close>

definition json_ws :: "nat \<Rightarrow> bool" where
  "json_ws c \<longleftrightarrow> c = 9 \<or> c = 10 \<or> c = 13 \<or> c = 32"

definition skip_ws :: "jsstring \<Rightarrow> jsstring" where
  "skip_ws s = dropWhile json_ws s"

definition is_digit :: "nat \<Rightarrow> bool" where
  "is_digit c \<longleftrightarrow> 48 \<le> c \<and> c \<le> 57"

definition hex_digit :: "nat \<Rightarrow> nat option" where
  "hex_digit c =
     (if 48 \<le> c \<and> c \<le> 57 then Some (c - 48)
      else if 65 \<le> c \<and> c \<le> 70 then Some (c - 55)
      else if 97 \<le> c \<and> c \<le> 102 then Some (c - 87)
      else None)"

text \<open>The single-character escapes: \<open>\"\<close>, \<open>\\\<close>, \<open>\/\<close>, \<open>\b\<close>, \<open>\f\<close>, \<open>\n\<close>, \<open>\r\<close>, \<open>\t\<close>.\<close>

definition unescape :: "nat \<Rightarrow> nat option" where
  "unescape c =
     (if c = 34 \<or> c = 92 \<or> c = 47 then Some c
      else if c = 98 then Some 8
      else if c = 102 then Some 12
      else if c = 110 then Some 10
      else if c = 114 then Some 13
      else if c = 116 then Some 9
      else None)"

text \<open>
  The body of a string literal, after its opening quote: the decoded string (collected
  in reverse) and the text after the closing quote. \<open>Hex k v\<close>: \<open>k\<close> digits of a
  \<open>\u\<close> escape read so far, with value \<open>v\<close>.
\<close>

datatype scan_state = Plain | Esc | Hex nat nat

fun scan_string :: "scan_state \<Rightarrow> jsstring \<Rightarrow> jsstring \<Rightarrow> (jsstring \<times> jsstring) option" where
  "scan_string st acc [] = None"
| "scan_string Plain acc (c # cs) =
     (if c = 34 then Some (rev acc, cs)
      else if c = 92 then scan_string Esc acc cs
      else if c < 32 then None
      else scan_string Plain (c # acc) cs)"
| "scan_string Esc acc (c # cs) =
     (case unescape c of
        Some d \<Rightarrow> scan_string Plain (d # acc) cs
      | None \<Rightarrow> if c = 117 then scan_string (Hex 0 0) acc cs else None)"
| "scan_string (Hex k v) acc (c # cs) =
     (case hex_digit c of
        None \<Rightarrow> None
      | Some d \<Rightarrow>
          if k = 3 then scan_string Plain ((16 * v + d) # acc) cs
          else scan_string (Hex (k + 1) (16 * v + d)) acc cs)"

text \<open>
  A number literal \<open>-? (0 | [1-9][0-9]*) (. [0-9]+)? ([eE] [+-]? [0-9]+)?\<close> at the head of
  the text: its value and the text after it.
\<close>

definition digits_value :: "jsstring \<Rightarrow> nat" where
  "digits_value ds = foldl (\<lambda>a d. 10 * a + (d - 48)) 0 ds"

text \<open>
  The value of the digits \<open>ds\<close> scaled by \<open>10 ^ ex\<close>, in normal form: an integer is
  \<open>JNumber n 0\<close>, any other number \<open>JNumber m e\<close> with \<open>e < 0\<close> and \<open>m\<close> not a multiple of 10.
\<close>

definition decimal :: "bool \<Rightarrow> jsstring \<Rightarrow> int \<Rightarrow> json" where
  "decimal neg ds ex =
     (let m = digits_value ds;
          z = min (length (takeWhile (\<lambda>d. d = 48) (rev ds))) (nat (- ex));
          m' = (if 0 \<le> ex then m * 10 ^ nat ex else m div 10 ^ z);
          e' = (if 0 \<le> ex then 0 else ex + int z)
      in if m = 0 then JNumber 0 0
         else JNumber (if neg then - int m' else int m') e')"

definition scan_sign :: "jsstring \<Rightarrow> bool \<times> jsstring" where
  "scan_sign s = (case s of [] \<Rightarrow> (False, s) | c # r \<Rightarrow> if c = 45 then (True, r) else (False, s))"

definition scan_int :: "jsstring \<Rightarrow> (jsstring \<times> jsstring) option" where
  "scan_int s =
     (case s of
        [] \<Rightarrow> None
      | c # r \<Rightarrow>
          if c = 48 then Some ([48], r)
          else if is_digit c then Some (takeWhile is_digit s, dropWhile is_digit s)
          else None)"

definition scan_frac :: "jsstring \<Rightarrow> (jsstring \<times> jsstring) option" where
  "scan_frac s =
     (case s of
        [] \<Rightarrow> Some ([], s)
      | c # r \<Rightarrow>
          if c = 46 then
            (if takeWhile is_digit r = [] then None
             else Some (takeWhile is_digit r, dropWhile is_digit r))
          else Some ([], s))"

definition scan_exp_sign :: "jsstring \<Rightarrow> bool \<times> jsstring" where
  "scan_exp_sign s =
     (case s of
        [] \<Rightarrow> (False, s)
      | c # r \<Rightarrow> if c = 45 then (True, r) else if c = 43 then (False, r) else (False, s))"

definition scan_exp :: "jsstring \<Rightarrow> (int \<times> jsstring) option" where
  "scan_exp s =
     (case s of
        [] \<Rightarrow> Some (0, s)
      | c # r \<Rightarrow>
          if c = 101 \<or> c = 69 then
            (case scan_exp_sign r of
               (neg, r') \<Rightarrow>
                 if takeWhile is_digit r' = [] then None
                 else Some (if neg then - int (digits_value (takeWhile is_digit r'))
                            else int (digits_value (takeWhile is_digit r')),
                            dropWhile is_digit r'))
          else Some (0, s))"

definition scan_number :: "jsstring \<Rightarrow> (json \<times> jsstring) option" where
  "scan_number s =
     (case scan_sign s of
        (neg, s1) \<Rightarrow>
          (case scan_int s1 of
             None \<Rightarrow> None
           | Some (ip, s2) \<Rightarrow>
               (case scan_frac s2 of
                  None \<Rightarrow> None
                | Some (fp, s3) \<Rightarrow>
                    (case scan_exp s3 of
                       None \<Rightarrow> None
                     | Some (ex, s4) \<Rightarrow>
                         Some (decimal neg (ip @ fp) (ex - int (length fp)), s4)))))"

text \<open>
  \<open>obj_put\<close>: defining a property of an object under construction. A repeated key takes
  the later value and keeps its first position.
\<close>

fun obj_put :: "jsstring \<Rightarrow> json \<Rightarrow> (jsstring \<times> json) list \<Rightarrow> (jsstring \<times> json) list" where
  "obj_put k v [] = [(k, v)]"
| "obj_put k v ((k', v') # kvs) =
     (if k' = k then (k, v) # kvs else (k', v') # obj_put k v kvs)"

lemma length_skip_ws: "length (skip_ws s) \<le> length s"
  by (simp add: skip_ws_def length_dropWhile_le)

lemma scan_string_length: "scan_string st acc cs = Some (s, r) \<Longrightarrow> length r < length cs + 1"
  by (induction st acc cs rule: scan_string.induct) (auto split: if_splits option.splits)

text \<open>
  The value grammar, by recursive descent. \<open>parse_value\<close> reads one value at the head of
  the text; \<open>parse_elements\<close> the elements of an array after \<open>[\<close>, up to and including
  \<open>]\<close>; \<open>parse_members\<close> the members of an object after \<open>{\<close>, up to and including \<open>}\<close>.
  Each returns what it read and the text after it. The length tests on the text that
  \<open>parse_value\<close> leaves are always true (lemma \<open>parse_shape\<close> below); they make the
  recursion visibly well-founded.
\<close>

function parse_value :: "jsstring \<Rightarrow> (json \<times> jsstring) option"
  and parse_elements :: "json list \<Rightarrow> jsstring \<Rightarrow> (json list \<times> jsstring) option"
  and parse_members ::
    "(jsstring \<times> json) list \<Rightarrow> jsstring \<Rightarrow> ((jsstring \<times> json) list \<times> jsstring) option"
where
  "parse_value [] = None"
| "parse_value (c # cs) =
     (if c = 123 then
        (case skip_ws cs of
           [] \<Rightarrow> None
         | d # r \<Rightarrow>
             if d = 125 then Some (JObject [], r)
             else (case parse_members [] (d # r) of
                     None \<Rightarrow> None
                   | Some (kvs, r') \<Rightarrow> Some (JObject kvs, r')))
      else if c = 91 then
        (case skip_ws cs of
           [] \<Rightarrow> None
         | d # r \<Rightarrow>
             if d = 93 then Some (JArray [], r)
             else (case parse_elements [] (d # r) of
                     None \<Rightarrow> None
                   | Some (vs, r') \<Rightarrow> Some (JArray vs, r')))
      else if c = 34 then
        (case scan_string Plain [] cs of
           None \<Rightarrow> None
         | Some (s, r) \<Rightarrow> Some (JString s, r))
      else if prefix (str ''true'') (c # cs) then Some (JBool True, drop 4 (c # cs))
      else if prefix (str ''false'') (c # cs) then Some (JBool False, drop 5 (c # cs))
      else if prefix (str ''null'') (c # cs) then Some (JNull, drop 4 (c # cs))
      else scan_number (c # cs))"
| "parse_elements acc cs =
     (case parse_value cs of
        None \<Rightarrow> None
      | Some (v, r) \<Rightarrow>
          if length r < length cs then
            (case skip_ws r of
               [] \<Rightarrow> None
             | d # r' \<Rightarrow>
                 if d = 44 then parse_elements (acc @ [v]) (skip_ws r')
                 else if d = 93 then Some (acc @ [v], r')
                 else None)
          else None)"
| "parse_members acc [] = None"
| "parse_members acc (c # cs) =
     (if c = 34 then
        (case scan_string Plain [] cs of
           None \<Rightarrow> None
         | Some (k, r1) \<Rightarrow>
             (case skip_ws r1 of
                [] \<Rightarrow> None
              | d # r2 \<Rightarrow>
                  if d = 58 then
                    (case parse_value (skip_ws r2) of
                       None \<Rightarrow> None
                     | Some (v, r3) \<Rightarrow>
                         if length r3 < length (skip_ws r2) then
                           (case skip_ws r3 of
                              [] \<Rightarrow> None
                            | e # r4 \<Rightarrow>
                                if e = 44 then parse_members (obj_put k v acc) (skip_ws r4)
                                else if e = 125 then Some (obj_put k v acc, r4)
                                else None)
                         else None)
                  else None))
      else None)"
  by pat_completeness auto
termination
proof (relation "measure (\<lambda>x. case x of
          Inl cs \<Rightarrow> 2 * length cs
        | Inr (Inl (acc, cs)) \<Rightarrow> 2 * length cs + 1
        | Inr (Inr (acc, cs)) \<Rightarrow> 2 * length cs + 1)", goal_cases)
  case 1
  show ?case by simp
next
  case (2 c cs d r)
  have "length (d # r) \<le> length cs" using 2 length_skip_ws [of cs] by simp
  then show ?case by simp
next
  case (3 c cs d r)
  have "length (d # r) \<le> length cs" using 3 length_skip_ws [of cs] by simp
  then show ?case by simp
next
  case (4 acc cs)
  show ?case by simp
next
  case (5 acc cs x v r d r')
  have "length (skip_ws r') \<le> length r'" by (rule length_skip_ws)
  moreover have "length (d # r') \<le> length r" using 5 length_skip_ws [of r] by simp
  ultimately show ?case using 5 by simp
next
  case (6 acc c cs x k r1 d r2)
  have "length r1 < length cs + 1" using 6 scan_string_length [of Plain "[]" cs k r1] by auto
  moreover have "length (d # r2) \<le> length r1" using 6 length_skip_ws [of r1] by simp
  moreover have "length (skip_ws r2) \<le> length r2" by (rule length_skip_ws)
  ultimately show ?case by simp
next
  case (7 acc c cs x k r1 d r2 y v r3 e r4)
  have "length r1 < length cs + 1" using 7 scan_string_length [of Plain "[]" cs k r1] by auto
  moreover have "length (d # r2) \<le> length r1" using 7 length_skip_ws [of r1] by simp
  moreover have "length (skip_ws r2) \<le> length r2" by (rule length_skip_ws)
  moreover have "length (e # r4) \<le> length r3" using 7 length_skip_ws [of r3] by simp
  moreover have "length (skip_ws r4) \<le> length r4" by (rule length_skip_ws)
  ultimately show ?case using 7 by simp
qed

text \<open>\<open>JSON.parse(text)\<close>: one value, with white space around it and nothing else.\<close>

definition json_parse :: "jsstring \<Rightarrow> json option" where
  "json_parse s =
     (case parse_value (skip_ws s) of
        None \<Rightarrow> None
      | Some (v, r) \<Rightarrow> if skip_ws r = [] then Some v else None)"






subsection \<open>Printing: numbers and \<open>JSON.stringify\<close>\<close>

text \<open>The decimal digits of a natural number.\<close>

function dec :: "nat \<Rightarrow> jsstring" where
  "dec n = (if n < 10 then [48 + n] else dec (n div 10) @ [48 + n mod 10])"
  by pat_completeness auto
termination
  by (relation "measure (\<lambda>n. n)") auto

declare dec.simps [simp del]

text \<open>
  \<open>Number::toString\<close> of the number \<open>m * 10 ^ e\<close> in normal form. With \<open>sig\<close> the \<open>k\<close>
  significant digits and \<open>n\<close> the position of the decimal point (the value is
  \<open>0.sig * 10 ^ n\<close>): plain digits up to \<open>10 ^ 21\<close>, a decimal fraction down to
  \<open>10 ^ -6\<close>, exponent notation beyond.
\<close>

definition num_to_string :: "int \<Rightarrow> int \<Rightarrow> jsstring" where
  "num_to_string m e =
     (if m = 0 then str ''0''
      else
        let ds = dec (nat \<bar>m\<bar>);
            sig = rev (dropWhile (\<lambda>d. d = 48) (rev ds));
            k = int (length sig);
            n = int (length ds) + e;
            x = n - 1;
            ex = [101, if x < 0 then 45 else 43] @ dec (nat \<bar>x\<bar>)
        in (if m < 0 then [45] else []) @
           (if k \<le> n \<and> n \<le> 21 then sig @ replicate (nat (n - k)) 48
            else if 0 < n \<and> n \<le> 21 then take (nat n) sig @ [46] @ drop (nat n) sig
            else if - 6 < n \<and> n \<le> 0 then [48, 46] @ replicate (nat (- n)) 48 @ sig
            else if k = 1 then sig @ ex
            else take 1 sig @ [46] @ drop 1 sig @ ex))"

text \<open>The text a template literal substitutes for an integer: its decimal numeral.\<close>

definition int_to_string :: "int \<Rightarrow> jsstring" where
  "int_to_string i = num_to_string i 0"

definition hex_char :: "nat \<Rightarrow> nat" where
  "hex_char d = (if d < 10 then 48 + d else 87 + d)"

definition unicode_escape :: "nat \<Rightarrow> jsstring" where
  "unicode_escape c =
     [92, 117, hex_char (c div 4096 mod 16), hex_char (c div 256 mod 16),
      hex_char (c div 16 mod 16), hex_char (c mod 16)]"

definition high_surrogate :: "nat \<Rightarrow> bool" where
  "high_surrogate c \<longleftrightarrow> 55296 \<le> c \<and> c \<le> 56319"

definition low_surrogate :: "nat \<Rightarrow> bool" where
  "low_surrogate c \<longleftrightarrow> 56320 \<le> c \<and> c \<le> 57343"

text \<open>
  The characters of a quoted string: the two-character escapes, \<open>\u00xx\<close> for the other
  control characters and \<open>\udxxx\<close> for a surrogate that is not half of a pair.
\<close>

fun quote_chars :: "jsstring \<Rightarrow> jsstring" where
  "quote_chars [] = []"
| "quote_chars (c # cs) =
     (if c = 8 then [92, 98] @ quote_chars cs
      else if c = 9 then [92, 116] @ quote_chars cs
      else if c = 10 then [92, 110] @ quote_chars cs
      else if c = 12 then [92, 102] @ quote_chars cs
      else if c = 13 then [92, 114] @ quote_chars cs
      else if c = 34 then [92, 34] @ quote_chars cs
      else if c = 92 then [92, 92] @ quote_chars cs
      else if c < 32 then unicode_escape c @ quote_chars cs
      else if high_surrogate c then
        (case cs of
           [] \<Rightarrow> unicode_escape c
         | d # ds \<Rightarrow>
             if low_surrogate d then c # d # quote_chars ds
             else unicode_escape c @ quote_chars cs)
      else if low_surrogate c then unicode_escape c @ quote_chars cs
      else c # quote_chars cs)"

definition quote :: "jsstring \<Rightarrow> jsstring" where
  "quote s = [34] @ quote_chars s @ [34]"

text \<open>
  The own keys of an object are enumerated with the array indices first (canonical
  numerals below \<open>2 ^ 32 - 1\<close>), in ascending order, then the other keys as created.
\<close>

definition array_index :: "jsstring \<Rightarrow> nat option" where
  "array_index k =
     (if k \<noteq> [] \<and> list_all is_digit k \<and> (hd k \<noteq> 48 \<or> length k = 1) \<and>
         digits_value k < 4294967295
      then Some (digits_value k) else None)"

definition own_order :: "(jsstring \<times> 'a) list \<Rightarrow> (jsstring \<times> 'a) list" where
  "own_order kvs =
     sort_key (\<lambda>kv. case array_index (fst kv) of Some i \<Rightarrow> i | None \<Rightarrow> 0)
       (filter (\<lambda>kv. array_index (fst kv) \<noteq> None) kvs)
     @ filter (\<lambda>kv. array_index (fst kv) = None) kvs"

fun join :: "jsstring \<Rightarrow> jsstring list \<Rightarrow> jsstring" where
  "join sep [] = []"
| "join sep [x] = x"
| "join sep (x # y # ys) = x @ sep @ join sep (y # ys)"

text \<open>\<open>JSON.stringify(value)\<close>, with no replacer and no indentation.\<close>

fun stringify :: "json \<Rightarrow> jsstring"
  and stringify_elements :: "json list \<Rightarrow> jsstring list"
  and stringify_members :: "(jsstring \<times> json) list \<Rightarrow> (jsstring \<times> jsstring) list"
where
  "stringify JNull = str ''null''"
| "stringify (JBool b) = (if b then str ''true'' else str ''false'')"
| "stringify (JNumber m e) = num_to_string m e"
| "stringify (JString s) = quote s"
| "stringify (JArray vs) = [91] @ join [44] (stringify_elements vs) @ [93]"
| "stringify (JObject kvs) =
     [123] @ join [44] (map (\<lambda>kv. quote (fst kv) @ [58] @ snd kv)
                          (own_order (stringify_members kvs))) @ [125]"
| "stringify_elements [] = []"
| "stringify_elements (v # vs) = stringify v # stringify_elements vs"
| "stringify_members [] = []"
| "stringify_members ((k, v) # kvs) = (k, stringify v) # stringify_members kvs"



text \<open>
  The numbers on which the decimal kept here and the engine's double agree, so that
  parsing and printing them is exact: at most 15 significant digits, and a magnitude
  from \<open>10 ^ -301\<close> up to \<open>10 ^ 300\<close>; and the values all of whose numbers are such.
\<close>

definition plain_number :: "int \<Rightarrow> int \<Rightarrow> bool" where
  "plain_number m e \<longleftrightarrow>
     m = 0 \<or>
     (let ds = dec (nat \<bar>m\<bar>);
          sig = rev (dropWhile (\<lambda>d. d = 48) (rev ds));
          n = int (length ds) + e
      in length sig \<le> 15 \<and> - 300 \<le> n \<and> n \<le> 300)"

fun plain_numbers :: "json \<Rightarrow> bool"
  and plain_numbers_elements :: "json list \<Rightarrow> bool"
  and plain_numbers_members :: "(jsstring \<times> json) list \<Rightarrow> bool"
where
  "plain_numbers JNull = True"
| "plain_numbers (JBool b) = True"
| "plain_numbers (JNumber m e) = plain_number m e"
| "plain_numbers (JString s) = True"
| "plain_numbers (JArray vs) = plain_numbers_elements vs"
| "plain_numbers (JObject kvs) = plain_numbers_members kvs"
| "plain_numbers_elements [] = True"
| "plain_numbers_elements (v # vs) = (plain_numbers v \<and> plain_numbers_elements vs)"
| "plain_numbers_members [] = True"
| "plain_numbers_members ((k, v) # kvs) = (plain_numbers v \<and> plain_numbers_members kvs)"

subsection \<open>Reading properties\<close>

text \<open>
  \<open>v.name\<close> for a name that no built-in prototype defines, which holds for every name the
  program reads (\<open>candidates\<close>, \<open>content\<close>, \<open>parts\<close>, \<open>text\<close>, \<open>review\<close>, \<open>updatedCode\<close>,
  \<open>score\<close>, \<open>code\<close>): reading from \<open>undefined\<close> or \<open>null\<close> raises a TypeError, an object
  gives its own property, and every other value gives \<open>undefined\<close>.
\<close>

fun get_prop :: "jsval \<Rightarrow> jsstring \<Rightarrow> js_error + jsval" where
  "get_prop None name = Inl (TypeError name)"
| "get_prop (Some JNull) name = Inl (TypeError name)"
| "get_prop (Some (JObject kvs)) name = Inr (map_of kvs name)"
| "get_prop (Some v) name = Inr None"

text \<open>
  \<open>v[i]\<close> for a number \<open>i\<close>: an element of an array, a one-character string out of a
  string, the property named by the numeral out of an object.
\<close>

fun get_index :: "jsval \<Rightarrow> nat \<Rightarrow> js_error + jsval" where
  "get_index None i = Inl (TypeError (dec i))"
| "get_index (Some JNull) i = Inl (TypeError (dec i))"
| "get_index (Some (JArray vs)) i = Inr (if i < length vs then Some (vs ! i) else None)"
| "get_index (Some (JString s)) i = Inr (if i < length s then Some (JString [s ! i]) else None)"
| "get_index (Some (JObject kvs)) i = Inr (map_of kvs (dec i))"
| "get_index (Some v) i = Inr None"

definition and_then :: "'e + 'a \<Rightarrow> ('a \<Rightarrow> 'e + 'b) \<Rightarrow> 'e + 'b" where
  "and_then r f = (case r of Inl e \<Rightarrow> Inl e | Inr v \<Rightarrow> f v)"

text \<open>\<open>result.candidates[0]\<close> and \<open>result.candidates[0].content.parts[0].text\<close>.\<close>

definition first_candidate :: "json \<Rightarrow> js_error + jsval" where
  "first_candidate result =
     and_then (get_prop (Some result) (str ''candidates'')) (\<lambda>candidates.
       get_index candidates 0)"

definition candidate_text :: "json \<Rightarrow> js_error + jsval" where
  "candidate_text result =
     and_then (first_candidate result) (\<lambda>candidate.
     and_then (get_prop candidate (str ''content'')) (\<lambda>content.
     and_then (get_prop content (str ''parts'')) (\<lambda>parts.
     and_then (get_index parts 0) (\<lambda>part.
       get_prop part (str ''text'')))))"

text \<open>\<open>!v\<close> is true for \<open>undefined\<close>, \<open>null\<close>, \<open>false\<close>, \<open>0\<close> and the empty string.\<close>

fun truthy :: "jsval \<Rightarrow> bool" where
  "truthy None = False"
| "truthy (Some JNull) = False"
| "truthy (Some (JBool b)) = b"
| "truthy (Some (JNumber m e)) = (m \<noteq> 0)"
| "truthy (Some (JString s)) = (s \<noteq> [])"
| "truthy (Some v) = True"

section \<open>The browser client\<close>

subsection \<open>\<open>callGeminiAPI\<close>\<close>

text \<open>
  What \<open>fetch\<close> resolves to: the status line and the body, \<open>body\<close> being the text that
  \<open>response.json()\<close> decodes from the bytes (UTF-8, without a leading byte order mark).
  \<open>response.ok\<close> is true for a status from 200 to 299; \<open>response.json()\<close> is \<open>JSON.parse\<close>
  of that text.
\<close>

record response =
  status :: nat
  statusText :: jsstring
  body :: jsstring

definition ok :: "response \<Rightarrow> bool" where
  "ok r \<longleftrightarrow> 200 \<le> status r \<and> status r \<le> 299"

definition response_json :: "response \<Rightarrow> js_error + json" where
  "response_json r =
     (case json_parse (body r) of None \<Rightarrow> Inl (SyntaxError (body r)) | Some v \<Rightarrow> Inr v)"

definition fence :: jsstring where
  "fence = [96, 96, 96]"

definition fence_json :: jsstring where
  "fence_json = [96, 96, 96] @ str ''json''"

text \<open>\<open>textResponse.replace(/```json/g, '').replace(/```/g, '').trim()\<close>\<close>

definition clean_response :: "jsstring \<Rightarrow> jsstring" where
  "clean_response textResponse =
     trim (replace_all fence [] (replace_all fence_json [] textResponse))"

text \<open>
  The function after \<open>fetch\<close> has settled (lines 79 to 95). A rejected \<open>fetch\<close> and a
  failing \<open>response.json()\<close> reject the call with the engine's error; \<open>.replace\<close> exists
  on strings only.
\<close>

definition after_fetch :: "js_error + response \<Rightarrow> js_error + json" where
  "after_fetch reply =
     (case reply of
        Inl e \<Rightarrow> Inl e
      | Inr response \<Rightarrow>
          if \<not> ok response then
            Inl (Error (str ''API Error: '' @ dec (status response) @ str '' '' @
                        statusText response))
          else
            and_then (response_json response) (\<lambda>result.
            and_then (candidate_text result) (\<lambda>textResponse.
              case textResponse of
                Some (JString t) \<Rightarrow>
                  (case json_parse (clean_response t) of
                     Some v \<Rightarrow> Inr v
                   | None \<Rightarrow>
                       Inl (Error (str ''The AI returned an invalid response. Please try again.'')))
              | _ \<Rightarrow> Inl (TypeError (str ''replace'')))))"

text \<open>
  The call \<open>fetch(apiUrl, ...)\<close> of line 73. The URL, the prompt and the payload are built
  by string interpolation of a string, which cannot fail; they reach the result only
  through the reply, so the network is a function from the code sent to what \<open>fetch\<close>
  settles with. The call is an effect on the network: \<open>sent\<close> is the log of the requests
  made so far, each entry the code of one request.
\<close>

definition fetch_call ::
  "(jsstring \<Rightarrow> js_error + response) \<Rightarrow> jsstring \<Rightarrow> jsstring list \<Rightarrow>
   (js_error + response) \<times> jsstring list" where
  "fetch_call fetch code sent = (fetch code, sent @ [code])"

text \<open>
  \<open>callGeminiAPI(code)\<close> with its effect: what the call settles with, and the log of
  requests after it.
\<close>

definition callGeminiAPI_traced ::
  "(jsstring \<Rightarrow> js_error + response) \<Rightarrow> jsstring \<Rightarrow> jsstring list \<Rightarrow>
   (js_error + json) \<times> jsstring list" where
  "callGeminiAPI_traced fetch code sent =
     (case fetch_call fetch code sent of (reply, sent') \<Rightarrow> (after_fetch reply, sent'))"

text \<open>What \<open>callGeminiAPI(code)\<close> settles with.\<close>

definition callGeminiAPI :: "(jsstring \<Rightarrow> js_error + response) \<Rightarrow> jsstring \<Rightarrow> js_error + json" where
  "callGeminiAPI fetch code = fst (callGeminiAPI_traced fetch code [])"

subsection \<open>Rendering helpers\<close>

text \<open>\<open>formatReviewAsHtml(reviewText)\<close> for a string argument.\<close>

definition formatReviewAsHtml :: "jsstring \<Rightarrow> jsstring" where
  "formatReviewAsHtml reviewText =
     (let lines = filter (\<lambda>line. trim line \<noteq> []) (split_lines reviewText);
          html = foldl (\<lambda>html line.
                   let trimmedLine = trim (substring (trim line) (indexOf line 42 + 1))
                   in html @ str ''<li class=\"ml-5 list-disc\">'' @ trimmedLine @ str ''</li>'')
                 (str ''<ul class=\"space-y-2\">'') lines
      in html @ str ''</ul>'')"

text \<open>
  \<open>animateScore(finalScore)\<close> for an integer score. The state of one call: the counter
  of the closure, whether the interval timer is still registered, and the text of the
  score display. \<open>currentScore++\<close> is exact below \<open>2 ^ 53\<close> and leaves \<open>2 ^ 53\<close> as it is.
  \<open>interval_tick\<close> is one run of the timer's callback, 20 ms after the previous one.
\<close>

record animation =
  currentScore :: int
  timer_active :: bool
  scoreDisplay_text :: jsstring

definition js_increment :: "int \<Rightarrow> int" where
  "js_increment n = (if n < 2 ^ 53 then n + 1 else n)"

definition animateScore :: "int \<Rightarrow> jsstring \<Rightarrow> animation" where
  "animateScore finalScore shown =
     \<lparr>currentScore = 0, timer_active = True, scoreDisplay_text = shown\<rparr>"

definition interval_tick :: "int \<Rightarrow> animation \<Rightarrow> animation" where
  "interval_tick finalScore a =
     (if \<not> timer_active a then a
      else
        let c = js_increment (currentScore a)
        in \<lparr>currentScore = c, timer_active = \<not> (c \<ge> finalScore),
            scoreDisplay_text = int_to_string c\<rparr>)"

definition after_ticks :: "nat \<Rightarrow> int \<Rightarrow> animation \<Rightarrow> animation" where
  "after_ticks n finalScore a = (interval_tick finalScore ^^ n) a"

subsection \<open>The page and its event handlers\<close>

text \<open>
  The elements the handlers touch, each field holding what was last assigned to it. The
  last two fields are not on the page: they log, in order, the argument of every
  \<open>animateScore\<close> call and every text written to the clipboard.
\<close>

record page =
  inputCode :: jsstring
  reviewOutput :: jsstring
  outputCode :: jsstring
  scoreDisplay :: jsstring
  loader_hidden :: bool
  errorBox_hidden :: bool
  errorMessage :: jsstring
  reviewBtn_disabled :: bool
  copyBtn_text :: jsstring
  animations :: "jsval list"
  clipboard :: "jsstring list"

definition showError :: "jsstring \<Rightarrow> page \<Rightarrow> page" where
  "showError message p = p\<lparr>errorMessage := message, errorBox_hidden := False\<rparr>"

definition hideError :: "page \<Rightarrow> page" where
  "hideError p = p\<lparr>errorBox_hidden := True\<rparr>"

text \<open>
  The click handler of the review button up to its call of \<open>callGeminiAPI\<close>: the page
  it leaves and the code it calls \<open>callGeminiAPI\<close> with, if it does.
\<close>

definition review_click :: "page \<Rightarrow> page \<times> jsstring option" where
  "review_click p =
     (let userCode = trim (inputCode p)
      in if userCode = [] then
           (showError (str ''Please paste some code in the input box before reviewing.'') p, None)
         else
           ((hideError p)\<lparr>loader_hidden := False, reviewBtn_disabled := True\<rparr>,
            Some userCode))"

text \<open>
  What goes into the corrected-code box: \<open>result.updatedCode\<close> if it is truthy and
  \<open>result.updatedCode.trim() !== ""\<close>, the placeholder otherwise. \<open>.trim\<close> exists on strings
  only.
\<close>

definition output_text :: "jsval \<Rightarrow> js_error + jsstring" where
  "output_text updatedCode =
     (if truthy updatedCode then
        (case updatedCode of
           Some (JString code) \<Rightarrow>
             Inr (if trim code \<noteq> [] then code
                  else str ''No changes needed. Your code is looking great!'')
         | _ \<Rightarrow> Inl (TypeError (str ''trim'')))
      else Inr (str ''No changes needed. Your code is looking great!''))"

text \<open>
  The statements of the \<open>try\<close> block after the call has returned \<open>result\<close>: the page as
  far as it was updated, and the error that cut the block short, if any.
  \<open>formatReviewAsHtml\<close> calls \<open>.split\<close>, which exists on strings only.
\<close>

definition render_result :: "json \<Rightarrow> page \<Rightarrow> page \<times> js_error option" where
  "render_result result p =
     (case get_prop (Some result) (str ''review'') of
        Inl e \<Rightarrow> (p, Some e)
      | Inr review \<Rightarrow>
          (case review of
             Some (JString reviewText) \<Rightarrow>
               (let p1 = p\<lparr>reviewOutput := formatReviewAsHtml reviewText\<rparr>
                in case and_then (get_prop (Some result) (str ''updatedCode'')) output_text of
                     Inl e \<Rightarrow> (p1, Some e)
                   | Inr text \<Rightarrow>
                       (let p2 = p1\<lparr>outputCode := text\<rparr>
                        in case get_prop (Some result) (str ''score'') of
                             Inl e \<Rightarrow> (p2, Some e)
                           | Inr score \<Rightarrow> (p2\<lparr>animations := animations p2 @ [score]\<rparr>, None)))
           | _ \<Rightarrow> (p, Some (TypeError (str ''split'')))))"

text \<open>
  The rest of the click handler, run when the awaited call has settled with \<open>outcome\<close>:
  the \<open>try\<close> block, the \<open>catch\<close> clause and the \<open>finally\<close> clause. \<open>engine\<close> words the
  messages of the errors the engine raises.
\<close>

definition review_settled :: "(js_error \<Rightarrow> jsstring) \<Rightarrow> js_error + json \<Rightarrow> page \<Rightarrow> page" where
  "review_settled engine outcome p =
     (let (p1, thrown) =
            (case outcome of
               Inl e \<Rightarrow> (p, Some e)
             | Inr result \<Rightarrow> render_result result p);
          p2 = (case thrown of
                  None \<Rightarrow> p1
                | Some e \<Rightarrow> showError (str ''An error occurred: '' @ error_message engine e) p1)
      in p2\<lparr>loader_hidden := True, reviewBtn_disabled := False\<rparr>)"

text \<open>The whole handler, when nothing else runs while it awaits the call.\<close>

definition review_handler ::
  "(js_error \<Rightarrow> jsstring) \<Rightarrow> (jsstring \<Rightarrow> js_error + response) \<Rightarrow> page \<Rightarrow> page" where
  "review_handler engine fetch p =
     (case review_click p of
        (p1, None) \<Rightarrow> p1
      | (p1, Some userCode) \<Rightarrow> review_settled engine (callGeminiAPI fetch userCode) p1)"

text \<open>
  The handler up to the point where \<open>callGeminiAPI\<close> awaits \<open>fetch\<close>, on the page and the
  log of requests: the page as \<open>review_click\<close> leaves it and, when the call is made, the
  log as the call leaves it. The rest of the handler, \<open>review_settled\<close>, acts on the page
  only.
\<close>

definition review_started ::
  "(jsstring \<Rightarrow> js_error + response) \<Rightarrow> page \<times> jsstring list \<Rightarrow> page \<times> jsstring list" where
  "review_started fetch st =
     (case review_click (fst st) of
        (p1, None) \<Rightarrow> (p1, snd st)
      | (p1, Some userCode) \<Rightarrow> (p1, snd (callGeminiAPI_traced fetch userCode (snd st))))"

text \<open>
  Whatever else can run while the request is in flight: the other two buttons, the
  callbacks of the copy button (the clipboard write resolving, the 2000 ms timeout), a
  tick of a score animation started earlier, which writes its counter to the display,
  and a further click on the review button, which the browser dispatches only while the
  button is enabled and which then starts the handler again.
\<close>

datatype page_event =
    ClearClick
  | CopyClick
  | ClipboardWritten
  | CopyLabelTimeout
  | ScoreTick jsstring
  | ReviewClick

fun page_step ::
  "(jsstring \<Rightarrow> js_error + response) \<Rightarrow> page \<times> jsstring list \<Rightarrow> page_event \<Rightarrow>
   page \<times> jsstring list" where
  "page_step fetch (p, sent) ClearClick =
     (hideError (p\<lparr>inputCode := [],
                    reviewOutput := str ''AI's feedback will appear here...'',
                    outputCode := [],
                    scoreDisplay := str ''N/A''\<rparr>), sent)"
| "page_step fetch (p, sent) CopyClick =
     (if outputCode p \<noteq> [] then (p\<lparr>clipboard := clipboard p @ [outputCode p]\<rparr>, sent)
      else (p, sent))"
| "page_step fetch (p, sent) ClipboardWritten = (p\<lparr>copyBtn_text := str ''Copied!''\<rparr>, sent)"
| "page_step fetch (p, sent) CopyLabelTimeout = (p\<lparr>copyBtn_text := str ''Copy''\<rparr>, sent)"
| "page_step fetch (p, sent) (ScoreTick counter) = (p\<lparr>scoreDisplay := counter\<rparr>, sent)"
| "page_step fetch (p, sent) ReviewClick =
     (if reviewBtn_disabled p then (p, sent) else review_started fetch (p, sent))"

definition page_steps ::
  "(jsstring \<Rightarrow> js_error + response) \<Rightarrow> page \<times> jsstring list \<Rightarrow> page_event list \<Rightarrow>
   page \<times> jsstring list" where
  "page_steps fetch st evs = foldl (page_step fetch) st evs"

section \<open>The server proxy (\<open>netlify/functions/review.js\<close>)\<close>

record event =
  httpMethod :: jsstring
  event_body :: "jsstring option"

record handler_result =
  statusCode :: nat
  headers :: "(jsstring \<times> jsstring) list"
  result_body :: jsval

definition error_body :: "jsstring \<Rightarrow> jsval" where
  "error_body message = Some (JString (stringify (JObject [(str ''error'', JString message)])))"

text \<open>
  Whether the conversion to a string that a template literal applies to a value returns.
  An object with an own property \<open>toString\<close> has no callable conversion method (the
  property holds data, and the inherited \<open>valueOf\<close> returns the object), so the
  conversion throws a TypeError; any other object converts by the inherited \<open>toString\<close>.
  An array converts by \<open>join\<close>, which converts every element but \<open>null\<close>. Every other
  value converts.
\<close>

fun converts :: "json \<Rightarrow> bool"
  and converts_elements :: "json list \<Rightarrow> bool"
where
  "converts (JObject kvs) = (map_of kvs (str ''toString'') = None)"
| "converts (JArray vs) = converts_elements vs"
| "converts JNull = True"
| "converts (JBool b) = True"
| "converts (JNumber m e) = True"
| "converts (JString s) = True"
| "converts_elements [] = True"
| "converts_elements (v # vs) = (converts v \<and> converts_elements vs)"

definition interpolates :: "jsval \<Rightarrow> bool" where
  "interpolates v = (case v of None \<Rightarrow> True | Some x \<Rightarrow> converts x)"

text \<open>
  The \<open>try\<close> block of the handler: what it returns, or the error that leaves it.
  \<open>event.body\<close> is a string or \<open>null\<close>, and \<open>JSON.parse(null)\<close> parses the text \<open>null\<close>;
  destructuring \<open>{ code }\<close> reads the property \<open>code\<close>. \<open>apiKey\<close> is the environment
  variable, \<open>None\<close> when it is not set. The prompt is a template literal with \<open>${code}\<close>
  in it, so building it converts \<open>code\<close> to a string. The request is determined by the
  key and the code, so the network is a function of the two.
\<close>

definition handler_try ::
  "(jsstring \<Rightarrow> jsval \<Rightarrow> js_error + response) \<Rightarrow> jsstring option \<Rightarrow> event \<Rightarrow>
   js_error + handler_result" where
  "handler_try fetch apiKey ev =
     (let text = (case event_body ev of None \<Rightarrow> str ''null'' | Some b \<Rightarrow> b)
      in case json_parse text of
           None \<Rightarrow> Inl (SyntaxError text)
         | Some parsed \<Rightarrow>
             and_then (get_prop (Some parsed) (str ''code'')) (\<lambda>code.
               case apiKey of
                 None \<Rightarrow>
                   Inr \<lparr>statusCode = 500, headers = [],
                        result_body = error_body (str ''API key is not configured on the server.'')\<rparr>
               | Some key \<Rightarrow>
                   if key = [] then
                     Inr \<lparr>statusCode = 500, headers = [],
                          result_body = error_body (str ''API key is not configured on the server.'')\<rparr>
                   else if \<not> interpolates code then Inl (TypeError (str ''toString''))
                   else
                     and_then (fetch key code) (\<lambda>response.
                       if \<not> ok response then
                         and_then (response_json response) (\<lambda>errorData.
                           Inr \<lparr>statusCode = status response, headers = [],
                                result_body = Some (JString (stringify errorData))\<rparr>)
                       else
                         and_then (response_json response) (\<lambda>result.
                         and_then (candidate_text result) (\<lambda>responseText.
                           Inr \<lparr>statusCode = 200,
                                headers = [(str ''Content-Type'', str ''application/json'')],
                                result_body = responseText\<rparr>)))))"

definition handler ::
  "(js_error \<Rightarrow> jsstring) \<Rightarrow> (jsstring \<Rightarrow> jsval \<Rightarrow> js_error + response) \<Rightarrow> jsstring option \<Rightarrow>
   event \<Rightarrow> handler_result" where
  "handler engine fetch apiKey ev =
     (if httpMethod ev \<noteq> str ''POST'' then
        \<lparr>statusCode = 405, headers = [], result_body = Some (JString (str ''Method Not Allowed''))\<rparr>
      else
        case handler_try fetch apiKey ev of
          Inr res \<Rightarrow> res
        | Inl error \<Rightarrow>
            \<lparr>statusCode = 500, headers = [],
             result_body = error_body (error_message engine error)\<rparr>)"

section \<open>Sample inputs\<close>

text \<open>
  A success reply of the completion endpoint with one candidate, in the shape
  \<open>{candidates:[{content:{parts:[{text}]}}]}\<close>, and the review text of the fenced-reply
  example.
\<close>

definition gemini_reply :: "jsstring \<Rightarrow> response" where
  "gemini_reply text =
     \<lparr>status = 200, statusText = str ''OK'',
      body = stringify (JObject [(str ''candidates'', JArray [JObject [(str ''content'',
               JObject [(str ''parts'', JArray [JObject [(str ''text'', JString text)]])])]])])\<rparr>"

definition review_ok :: jsstring where
  "review_ok = str ''{\"review\":\"ok\",\"updatedCode\":\"\",\"score\":90}''"


text \<open>The page at rest, with some text in the input box and earlier results on display.\<close>

definition sample_page :: page where
  "sample_page =
     \<lparr>inputCode = str ''  x = 1  '', reviewOutput = str ''<ul class=\"space-y-2\"></ul>'',
      outputCode = str ''let x = 1;'', scoreDisplay = str ''80'', loader_hidden = True,
      errorBox_hidden = True, errorMessage = [], reviewBtn_disabled = False,
      copyBtn_text = str ''Copy'', animations = [], clipboard = []\<rparr>"

text \<open>
  A POST request to the proxy, two error replies of the upstream (a gateway's HTML page,
  and a JSON error written with white space) and the messages of one engine.
\<close>

definition post_event :: event where
  "post_event = \<lparr>httpMethod = str ''POST'', event_body = Some (str ''{\"code\":\"x = 1\"}'')\<rparr>"



definition sample_engine :: "js_error \<Rightarrow> jsstring" where
  "sample_engine e =
     (case e of
        Error m \<Rightarrow> m
      | TypeError p \<Rightarrow>
          str ''Cannot read properties of undefined (reading '' @ [39] @ p @ [39] @ str '')''
      | SyntaxError t \<Rightarrow> str ''Unexpected token '' @ take 1 t @ str '' in JSON at position 0''
      | FetchFailed \<Rightarrow> str ''fetch failed'')"


section \<open>Properties of the string operations\<close>

lemma prefix_barrier:
  assumes "c \<notin> set pat"
  shows "prefix pat (u @ c # b) \<longleftrightarrow> prefix pat u"
proof
  assume "prefix pat (u @ c # b)"
  then have "prefix pat u \<or> (\<exists>us. pat = u @ us \<and> prefix us (c # b))"
    by (simp add: prefix_append)
  then show "prefix pat u"
  proof
    assume "prefix pat u"
    then show ?thesis .
  next
    assume "\<exists>us. pat = u @ us \<and> prefix us (c # b)"
    then obtain us where us: "pat = u @ us" "prefix us (c # b)" by blast
    show ?thesis
    proof (cases us)
      case Nil
      with us show ?thesis by simp
    next
      case (Cons d ds)
      with us have "d = c" by simp
      with us Cons assms show ?thesis by simp
    qed
  qed
next
  assume "prefix pat u"
  then show "prefix pat (u @ c # b)" by (rule prefix_prefix)
qed

lemma replace_all_barrier:
  assumes "c \<notin> set pat" and "pat \<noteq> []"
  shows "replace_all pat rep (a @ c # b) = replace_all pat rep a @ c # replace_all pat rep b"
  using assms
proof (induction pat rep a rule: replace_all.induct)
  case (1 pat rep)
  then have "\<not> prefix pat (c # b)"
    using prefix_barrier [of c pat "[]" b] by simp
  with 1 show ?case by simp
next
  case (2 pat rep x xs)
  note nc = \<open>c \<notin> set pat\<close> and ne = \<open>pat \<noteq> []\<close>
  have pb: "prefix pat ((x # xs) @ c # b) \<longleftrightarrow> prefix pat (x # xs)"
    using nc by (rule prefix_barrier)
  show ?case
  proof (cases "prefix pat (x # xs)")
    case True
    then have le: "length pat \<le> length (x # xs)" by (rule prefix_length_le)
    have "replace_all pat rep (drop (length pat) (x # xs) @ c # b)
          = replace_all pat rep (drop (length pat) (x # xs)) @ c # replace_all pat rep b"
      using "2.IH"(2) [OF ne True nc ne] .
    moreover have "drop (length pat) ((x # xs) @ c # b)
          = drop (length pat) (x # xs) @ drop (length pat - length (x # xs)) (c # b)"
      by (rule drop_append)
    then have "drop (length pat) (x # xs @ c # b) = drop (length pat) (x # xs) @ c # b"
      using le by simp
    ultimately show ?thesis using True pb ne by simp
  next
    case False
    have "replace_all pat rep (xs @ c # b) = replace_all pat rep xs @ c # replace_all pat rep b"
      using "2.IH"(3) [OF ne False nc ne] .
    then show ?thesis using False pb ne by simp
  qed
qed

lemma replace_all_skip:
  assumes "set w \<inter> set pat = {}" and "pat \<noteq> []"
  shows "replace_all pat rep (w @ b) = w @ replace_all pat rep b"
  using assms
proof (induction w)
  case Nil
  then show ?case by simp
next
  case (Cons c w)
  then have "c \<notin> set pat" by auto
  then have "replace_all pat rep ([] @ c # (w @ b)) = replace_all pat rep [] @ c # replace_all pat rep (w @ b)"
    using Cons.prems(2) by (rule replace_all_barrier)
  with Cons show ?case by auto
qed

lemma replace_all_match:
  assumes "pat \<noteq> []"
  shows "replace_all pat rep (pat @ s) = rep @ replace_all pat rep s"
proof -
  obtain c cs where "pat @ s = c # cs" using assms by (cases pat) auto
  moreover have "prefix pat (pat @ s)" by simp
  moreover have "drop (length pat) (pat @ s) = s" by simp
  ultimately show ?thesis using assms by (metis replace_all.simps(2))
qed

lemma trim_core:
  assumes "list_all js_space a" and "list_all js_space b"
    and "\<not> js_space x" and "\<not> js_space y"
  shows "trim (a @ x # mid @ y # b) = x # mid @ [y]"
proof -
  have 1: "dropWhile js_space (a @ x # mid @ y # b) = x # mid @ y # b"
    using assms(1,3) by (simp add: list_all_iff)
  have "dropWhile js_space (rev b @ y # rev mid @ [x]) = dropWhile js_space (y # rev mid @ [x])"
    using assms(2) by (intro dropWhile_append2) (simp add: list_all_iff)
  then have "dropWhile js_space (rev (x # mid @ y # b)) = y # rev mid @ [x]"
    using assms(4) by simp
  then show ?thesis by (simp add: trim_def 1)
qed


lemma replace_all_inert:
  assumes "set w \<inter> set pat = {}" and "pat \<noteq> []"
  shows "replace_all pat rep w = w"
  using replace_all_skip [OF assms, of rep "[]"] assms(2) by simp

lemma replace_all_around:
  assumes "pat \<noteq> []" and "set a \<inter> set pat = {}" and "x \<notin> set pat" and "y \<notin> set pat"
  shows "replace_all pat rep (a @ x # mid @ y # b)
         = a @ x # replace_all pat rep mid @ y # replace_all pat rep b"
proof -
  have "replace_all pat rep (a @ x # mid @ y # b) = a @ replace_all pat rep ([] @ x # mid @ y # b)"
    using replace_all_skip [OF assms(2,1)] by simp
  also have "replace_all pat rep ([] @ x # mid @ y # b)
             = replace_all pat rep [] @ x # replace_all pat rep (mid @ y # b)"
    using assms(3,1) by (rule replace_all_barrier)
  also have "replace_all pat rep (mid @ y # b)
             = replace_all pat rep mid @ y # replace_all pat rep b"
    using assms(4,1) by (rule replace_all_barrier)
  finally show ?thesis using assms(1) by simp
qed

lemma space_not_fence: "js_space c \<Longrightarrow> c \<notin> set fence_json \<and> c \<notin> set fence"
  by (auto simp: js_space_def fence_json_def fence_def str_def)

lemma spaces_fence_free:
  assumes "list_all js_space w"
  shows "set w \<inter> set fence_json = {}" and "set w \<inter> set fence = {}"
  using assms space_not_fence by (auto simp: list_all_iff)

lemma json_ws_space: "json_ws c \<Longrightarrow> js_space c"
  by (auto simp: json_ws_def js_space_def)

lemma fence_not_fence_json:
  assumes "list_all js_space w"
  shows "replace_all fence_json [] (fence @ w) = fence @ w"
proof (cases w)
  case Nil
  then show ?thesis by (simp add: fence_def fence_json_def str_def)
next
  case (Cons c w')
  then have c: "c \<noteq> 96" "c \<noteq> 106" using assms by (auto simp: js_space_def)
  have "replace_all fence_json [] (c # w') = c # w'"
    using replace_all_inert [of "c # w'" fence_json "[]"] spaces_fence_free(1) [OF assms] Cons
    by (simp add: fence_json_def)
  then show ?thesis using c Cons by (simp add: fence_def fence_json_def str_def)
qed

lemma clean_response_fenced:
  assumes w: "list_all js_space w1" "list_all js_space w2" "list_all js_space w3"
             "list_all js_space w4"
    and pq: "list_all js_space p" "list_all js_space q"
  shows "clean_response (w1 @ fence_json @ w2 @ (p @ 123 # mid @ 125 # q) @ w3 @ fence @ w4)
         = clean_response (p @ 123 # mid @ 125 # q)"
proof -
  have nej: "fence_json \<noteq> []" and nef: "fence \<noteq> []"
    by (simp_all add: fence_json_def fence_def)
  have bj: "123 \<notin> set fence_json" "125 \<notin> set fence_json"
    and bf: "123 \<notin> set fence" "125 \<notin> set fence"
    by (simp_all add: fence_json_def fence_def str_def)
  define m1 where "m1 = replace_all fence_json [] mid"
  define m2 where "m2 = replace_all fence [] m1"
  have w2p: "list_all js_space (w2 @ p)" and qw3: "list_all js_space (q @ w3)"
    and all4: "list_all js_space (w1 @ w2 @ p)" and tail: "list_all js_space (q @ w3 @ w4)"
    using w pq by simp_all
  \<comment> \<open>the fenced text, first pass\<close>
  have "replace_all fence_json [] (w1 @ fence_json @ w2 @ (p @ 123 # mid @ 125 # q) @ w3 @ fence @ w4)
        = w1 @ replace_all fence_json [] (fence_json @ (w2 @ p) @ 123 # mid @ 125 # (q @ w3) @ fence @ w4)"
    using replace_all_skip [OF spaces_fence_free(1) [OF w(1)] nej] by simp
  also have "replace_all fence_json [] (fence_json @ (w2 @ p) @ 123 # mid @ 125 # (q @ w3) @ fence @ w4)
        = replace_all fence_json [] ((w2 @ p) @ 123 # mid @ 125 # (q @ w3) @ fence @ w4)"
    using replace_all_match [OF nej, of "[]"] by simp
  also have "\<dots> = (w2 @ p) @ 123 # m1 @ 125 # replace_all fence_json [] ((q @ w3) @ fence @ w4)"
    unfolding m1_def
    using replace_all_around [OF nej spaces_fence_free(1) [OF w2p] bj] by simp
  also have "replace_all fence_json [] ((q @ w3) @ fence @ w4) = (q @ w3) @ fence @ w4"
    using replace_all_skip [OF spaces_fence_free(1) [OF qw3] nej] fence_not_fence_json [OF w(4)]
    by simp
  finally have pass1: "replace_all fence_json []
        (w1 @ fence_json @ w2 @ (p @ 123 # mid @ 125 # q) @ w3 @ fence @ w4)
      = (w1 @ w2 @ p) @ 123 # m1 @ 125 # (q @ w3) @ fence @ w4"
    by simp
  \<comment> \<open>the fenced text, second pass\<close>
  have "replace_all fence [] ((w1 @ w2 @ p) @ 123 # m1 @ 125 # (q @ w3) @ fence @ w4)
        = (w1 @ w2 @ p) @ 123 # m2 @ 125 # replace_all fence [] ((q @ w3) @ fence @ w4)"
    unfolding m2_def
    using replace_all_around [OF nef spaces_fence_free(2) [OF all4] bf] by simp
  also have "replace_all fence [] ((q @ w3) @ fence @ w4) = (q @ w3) @ replace_all fence [] (fence @ w4)"
    using replace_all_skip [OF spaces_fence_free(2) [OF qw3] nef] by simp
  also have "replace_all fence [] (fence @ w4) = w4"
    using replace_all_match [OF nef, of "[]" w4]
      replace_all_inert [OF spaces_fence_free(2) [OF w(4)] nef] by simp
  finally have pass2: "replace_all fence [] ((w1 @ w2 @ p) @ 123 # m1 @ 125 # (q @ w3) @ fence @ w4)
      = (w1 @ w2 @ p) @ 123 # m2 @ 125 # (q @ w3 @ w4)"
    by simp
  have sp: "\<not> js_space 123" "\<not> js_space 125" by (simp_all add: js_space_def)
  have fenced: "clean_response (w1 @ fence_json @ w2 @ (p @ 123 # mid @ 125 # q) @ w3 @ fence @ w4)
                = 123 # m2 @ [125]"
    unfolding clean_response_def pass1 pass2 using trim_core [OF all4 tail sp] .
  \<comment> \<open>the bare text\<close>
  have "replace_all fence_json [] (p @ 123 # mid @ 125 # q) = p @ 123 # m1 @ 125 # q"
    unfolding m1_def
    using replace_all_around [OF nej spaces_fence_free(1) [OF pq(1)] bj]
      replace_all_inert [OF spaces_fence_free(1) [OF pq(2)] nej] by simp
  moreover have "replace_all fence [] (p @ 123 # m1 @ 125 # q) = p @ 123 # m2 @ 125 # q"
    unfolding m2_def
    using replace_all_around [OF nef spaces_fence_free(2) [OF pq(1)] bf]
      replace_all_inert [OF spaces_fence_free(2) [OF pq(2)] nef] by simp
  ultimately have "clean_response (p @ 123 # mid @ 125 # q) = 123 # m2 @ [125]"
    unfolding clean_response_def using trim_core [OF pq sp] by simp
  with fenced show ?thesis by simp
qed


section \<open>What the parser consumes\<close>

lemma scan_string_suffix: "scan_string st acc cs = Some (s, r) \<Longrightarrow> suffix r cs"
  by (induction st acc cs rule: scan_string.induct)
     (auto split: if_splits option.splits intro: suffix_ConsI)

lemma suffix_of_tl: "suffix r (tl s) \<Longrightarrow> suffix r s"
  using suffix_order.trans suffix_tl by blast

lemma suffix_of_drop: "suffix r (drop n s) \<Longrightarrow> suffix r s"
  using suffix_order.trans suffix_drop by blast

lemma scan_sign_suffix: "scan_sign s = (neg, r) \<Longrightarrow> suffix r s"
  by (auto simp: scan_sign_def split: list.splits if_splits intro: suffix_ConsI)

lemma scan_int_suffix: "scan_int s = Some (ds, r) \<Longrightarrow> suffix r s"
  by (auto simp: scan_int_def suffix_dropWhile split: list.splits if_splits intro: suffix_ConsI)

lemma scan_frac_suffix: "scan_frac s = Some (ds, r) \<Longrightarrow> suffix r s"
  by (auto simp: scan_frac_def suffix_dropWhile split: list.splits if_splits
           intro: suffix_ConsI)

lemma scan_exp_sign_suffix: "scan_exp_sign s = (neg, r) \<Longrightarrow> suffix r s"
  by (auto simp: scan_exp_sign_def split: list.splits if_splits intro: suffix_ConsI)

lemma scan_exp_suffix: "scan_exp s = Some (ex, r) \<Longrightarrow> suffix r s"
proof -
  assume a: "scan_exp s = Some (ex, r)"
  show ?thesis
  proof (cases s)
    case Nil
    with a show ?thesis by (simp add: scan_exp_def)
  next
    case (Cons c t)
    show ?thesis
    proof (cases "c = 101 \<or> c = 69")
      case False
      with a Cons show ?thesis by (simp add: scan_exp_def)
    next
      case True
      obtain neg t' where sg: "scan_exp_sign t = (neg, t')" by (cases "scan_exp_sign t")
      with a Cons True have "r = dropWhile is_digit t'"
        by (auto simp: scan_exp_def split: if_splits)
      then have "suffix r t'" by (simp add: suffix_dropWhile)
      then have "suffix r t" using scan_exp_sign_suffix [OF sg] suffix_order.trans by blast
      then show ?thesis using Cons by (simp add: suffix_ConsI)
    qed
  qed
qed

lemma scan_number_suffix:
  assumes "scan_number s = Some (v, r)"
  shows "suffix r s"
proof -
  obtain neg s1 where 1: "scan_sign s = (neg, s1)" by (cases "scan_sign s")
  from assms 1 obtain ip s2 where 2: "scan_int s1 = Some (ip, s2)"
    by (auto simp: scan_number_def split: option.splits)
  from assms 1 2 obtain fp s3 where 3: "scan_frac s2 = Some (fp, s3)"
    by (auto simp: scan_number_def split: option.splits)
  from assms 1 2 3 obtain ex where 4: "scan_exp s3 = Some (ex, r)"
    by (auto simp: scan_number_def split: option.splits)
  have "suffix r s3" using 4 by (rule scan_exp_suffix)
  also have "suffix s3 s2" using 3 by (rule scan_frac_suffix)
  also have "suffix s2 s1" using 2 by (rule scan_int_suffix)
  also have "suffix s1 s" using 1 by (rule scan_sign_suffix)
  finally show ?thesis .
qed

lemma scan_int_consumes: "scan_int s = Some (ds, r) \<Longrightarrow> length r < length s"
proof -
  assume a: "scan_int s = Some (ds, r)"
  then obtain c t where s: "s = c # t" by (cases s) (auto simp: scan_int_def)
  show ?thesis
  proof (cases "c = 48")
    case True
    with a s show ?thesis by (simp add: scan_int_def)
  next
    case False
    with a s have "is_digit c" and "r = dropWhile is_digit (c # t)"
      by (auto simp: scan_int_def split: if_splits)
    then have "r = dropWhile is_digit t" by simp
    then have "length r \<le> length t" by (simp add: length_dropWhile_le)
    then show ?thesis using s by simp
  qed
qed

lemma scan_number_consumes:
  assumes "scan_number s = Some (v, r)"
  shows "length r < length s"
proof -
  obtain neg s1 where 1: "scan_sign s = (neg, s1)" by (cases "scan_sign s")
  from assms 1 obtain ip s2 where 2: "scan_int s1 = Some (ip, s2)"
    by (auto simp: scan_number_def split: option.splits)
  from assms 1 2 obtain fp s3 where 3: "scan_frac s2 = Some (fp, s3)"
    by (auto simp: scan_number_def split: option.splits)
  from assms 1 2 3 obtain ex where 4: "scan_exp s3 = Some (ex, r)"
    by (auto simp: scan_number_def split: option.splits)
  have "length r \<le> length s3" using scan_exp_suffix [OF 4] by (rule suffix_length_le)
  also have "length s3 \<le> length s2" using scan_frac_suffix [OF 3] by (rule suffix_length_le)
  also have "length s2 < length s1" using 2 by (rule scan_int_consumes)
  also have "length s1 \<le> length s" using scan_sign_suffix [OF 1] by (rule suffix_length_le)
  finally show ?thesis .
qed

lemma scan_number_number: "scan_number s = Some (v, r) \<Longrightarrow> \<exists>m e. v = JNumber m e"
  by (auto simp: scan_number_def decimal_def Let_def split: option.splits prod.splits if_splits)

lemma skip_ws_suffix: "suffix (skip_ws s) s"
  by (simp add: skip_ws_def suffix_dropWhile)

lemma after_skip_ws: "skip_ws s = d # r \<Longrightarrow> suffix x r \<Longrightarrow> suffix x s"
  by (metis skip_ws_suffix suffix_ConsI suffix_order.trans)

lemma closing_brace:
  assumes "suffix (125 # r) cs"
  shows "suffix r (c # cs)" and "\<exists>mid. c # cs = c # mid @ 125 # r"
  using assms by (auto simp: suffix_def)

lemma parse_shape:
  shows "parse_value cs = Some (v, r) \<Longrightarrow>
           suffix r cs \<and> length r < length cs
           \<and> (\<forall>kvs. v = JObject kvs \<longrightarrow> (\<exists>mid. cs = 123 # mid @ 125 # r))"
    and "parse_elements acc cs2 = Some (vs, r2) \<Longrightarrow> suffix r2 cs2"
    and "parse_members acc3 cs3 = Some (kvs3, r3) \<Longrightarrow> suffix (125 # r3) cs3"
proof (induction cs and acc cs2 and acc3 cs3 arbitrary: v r and vs r2 and kvs3 r3
        rule: parse_value_parse_elements_parse_members.induct)
  case 1
  then show ?case by simp
next
  case (2 c cs)
  note ih_members = "2.IH"(1) and ih_elements = "2.IH"(2) and p = "2.prems"
  consider (obj) "c = 123" | (arr) "c \<noteq> 123" "c = 91" | (strg) "c \<noteq> 123" "c \<noteq> 91" "c = 34"
    | (other) "c \<noteq> 123" "c \<noteq> 91" "c \<noteq> 34"
    by blast
  then show ?case
  proof cases
    case obj
    with p obtain d r0 where sk: "skip_ws cs = d # r0"
      by (auto split: list.splits)
    have "suffix (125 # r) cs"
    proof (cases "d = 125")
      case True
      with p obj sk have "r = r0" by simp
      with sk True show ?thesis using skip_ws_suffix [of cs] by simp
    next
      case False
      with p obj sk obtain kvs where "parse_members [] (d # r0) = Some (kvs, r)"
        by (auto split: option.splits)
      then have "suffix (125 # r) (d # r0)" using ih_members [OF obj sk False] by simp
      then show ?thesis using sk skip_ws_suffix [of cs] suffix_order.trans by metis
    qed
    then show ?thesis
      using closing_brace [of r cs c] obj suffix_length_le [of "125 # r" cs] by simp
  next
    case arr
    with p obtain d r0 where sk: "skip_ws cs = d # r0"
      by (auto split: list.splits)
    have nobj: "\<forall>kvs. v \<noteq> JObject kvs"
      using p arr sk by (auto split: if_splits option.splits)
    have "suffix r cs"
    proof (cases "d = 93")
      case True
      with p arr sk have "r = r0" by simp
      with sk show ?thesis using after_skip_ws [of cs d r0 r0] by simp
    next
      case False
      with p arr sk obtain els where "parse_elements [] (d # r0) = Some (els, r)"
        by (auto split: option.splits)
      then have "suffix r (d # r0)" using ih_elements [OF arr sk False] by simp
      then show ?thesis using sk skip_ws_suffix [of cs] suffix_order.trans by metis
    qed
    then show ?thesis using nobj suffix_length_le [of r cs] by (simp add: suffix_ConsI)
  next
    case strg
    with p obtain s where "scan_string Plain [] cs = Some (s, r)" and "v = JString s"
      by (auto split: option.splits)
    then show ?thesis
      using scan_string_suffix [of Plain "[]" cs s r] suffix_length_le [of r cs]
      by (auto intro: suffix_ConsI)
  next
    case other
    consider (t) "prefix (str ''true'') (c # cs)"
      | (f) "\<not> prefix (str ''true'') (c # cs)" "prefix (str ''false'') (c # cs)"
      | (n) "\<not> prefix (str ''true'') (c # cs)" "\<not> prefix (str ''false'') (c # cs)"
            "prefix (str ''null'') (c # cs)"
      | (num) "\<not> prefix (str ''true'') (c # cs)" "\<not> prefix (str ''false'') (c # cs)"
            "\<not> prefix (str ''null'') (c # cs)"
      by blast
    then show ?thesis
    proof cases
      case t
      with p other have "v = JBool True" "r = drop 4 (c # cs)" by simp_all
      then show ?thesis using suffix_drop [of 4 "c # cs"] by simp
    next
      case f
      with p other have "v = JBool False" "r = drop 5 (c # cs)" by simp_all
      then show ?thesis using suffix_drop [of 5 "c # cs"] by simp
    next
      case n
      with p other have "v = JNull" "r = drop 4 (c # cs)" by simp_all
      then show ?thesis using suffix_drop [of 4 "c # cs"] by simp
    next
      case num
      with p other have sn: "scan_number (c # cs) = Some (v, r)" by simp
      show ?thesis
        using scan_number_suffix [OF sn] scan_number_number [OF sn] scan_number_consumes [OF sn]
        by auto
    qed
  qed
next
  case (3 acc cs)
  note ih_value = "3.IH"(1) and ih_rest = "3.IH"(2) and p = "3.prems"
  from p obtain v r where pv: "parse_value cs = Some (v, r)"
    by (auto split: option.splits)
  with p have len: "length r < length cs" by (auto split: if_splits)
  with p pv obtain d r' where sk: "skip_ws r = d # r'"
    by (auto split: list.splits)
  have r_cs: "suffix r cs" using ih_value [OF pv] by simp
  have "suffix r2 r'"
  proof (cases "d = 44")
    case True
    with p pv len sk have "parse_elements (acc @ [v]) (skip_ws r') = Some (vs, r2)" by simp
    then have "suffix r2 (skip_ws r')" using ih_rest [OF pv _ len sk True] by simp
    then show ?thesis using skip_ws_suffix [of r'] suffix_order.trans by blast
  next
    case False
    with p pv len sk have "r2 = r'" by (auto split: if_splits)
    then show ?thesis by simp
  qed
  then have "suffix r2 r" using sk by (rule after_skip_ws [rotated])
  then show ?case using r_cs suffix_order.trans by blast
next
  case (4 acc)
  then show ?case by simp
next
  case (5 acc c cs)
  note ih_value = "5.IH"(1) and ih_rest = "5.IH"(2) and p = "5.prems"
  from p have c: "c = 34" by (auto split: if_splits)
  with p obtain k r1 where ss: "scan_string Plain [] cs = Some (k, r1)"
    by (auto split: option.splits)
  with p c obtain d r2 where sk1: "skip_ws r1 = d # r2"
    by (auto split: list.splits)
  with p c ss have d: "d = 58" by (auto split: if_splits)
  with p c ss sk1 obtain v r3' where pv: "parse_value (skip_ws r2) = Some (v, r3')"
    by (auto split: option.splits)
  with p c ss sk1 d have len: "length r3' < length (skip_ws r2)" by (auto split: if_splits)
  with p c ss sk1 d pv obtain e r4 where sk3: "skip_ws r3' = e # r4"
    by (auto split: list.splits)
  have "suffix (125 # r3) (e # r4)"
  proof (cases "e = 44")
    case True
    with p c ss sk1 d pv len sk3
    have "parse_members (obj_put k v acc) (skip_ws r4) = Some (kvs3, r3)" by simp
    then have "suffix (125 # r3) (skip_ws r4)"
      using ih_rest [OF c ss _ sk1 d pv _ len sk3 True] by simp
    then have "suffix (125 # r3) r4" using skip_ws_suffix [of r4] suffix_order.trans by blast
    then show ?thesis by (rule suffix_ConsI)
  next
    case False
    with p c ss sk1 d pv len sk3 have "e = 125" "r3 = r4" by (auto split: if_splits)
    then show ?thesis by simp
  qed
  then have "suffix (125 # r3) r3'" using sk3 skip_ws_suffix [of r3'] by simp
  also have "suffix r3' (skip_ws r2)" using ih_value [OF c ss _ sk1 d pv] by simp
  also have "suffix (skip_ws r2) r2" by (rule skip_ws_suffix)
  also have "suffix r2 r1" using sk1 skip_ws_suffix [of r1] by (simp add: suffix_ConsD)
  also have "suffix r1 cs" using ss by (rule scan_string_suffix)
  finally show ?case by (rule suffix_ConsI)
qed


section \<open>White space after a value\<close>

text \<open>
  The parser reads a value without looking into white space that follows it: if a value
  is read at the head of \<open>cs @ q\<close>, \<open>q\<close> white space, then the text left ends with \<open>q\<close>, and
  the same value is read at the head of \<open>cs\<close> alone. First for the scanners of strings
  and numbers and for the literals, then for the grammar.
\<close>

lemma skip_ws_append_ws:
  assumes "list_all json_ws q"
  shows "skip_ws (x @ q) = (if skip_ws x = [] then [] else skip_ws x @ q)"
  using assms by (induction x) (auto simp: skip_ws_def list_all_iff)

lemma scan_string_ws:
  assumes "list_all json_ws q"
  shows "scan_string st acc q = None"
  using assms
proof (induction q arbitrary: st acc)
  case Nil
  then show ?case by simp
next
  case (Cons c q)
  then have q: "list_all json_ws q" by simp
  from Cons.prems have c: "c = 9 \<or> c = 10 \<or> c = 13 \<or> c = 32"
    by (simp add: json_ws_def)
  show ?case
  proof (cases st)
    case Plain
    with c Cons.IH [OF q] show ?thesis by auto
  next
    case Esc
    with c show ?thesis by (auto simp: unescape_def)
  next
    case (Hex k v)
    with c show ?thesis by (auto simp: hex_digit_def)
  qed
qed

lemma scan_string_append:
  assumes "list_all json_ws q"
  shows "scan_string st acc (x @ q) = Some (s, r) \<Longrightarrow>
         \<exists>r'. r = r' @ q \<and> scan_string st acc x = Some (s, r')"
proof (induction st acc x rule: scan_string.induct)
  case (1 st acc)
  then show ?case using scan_string_ws [OF assms] by simp
next
  case (2 acc c cs)
  then show ?case by (auto split: if_splits)
next
  case (3 acc c cs)
  then show ?case by (auto split: if_splits option.splits)
next
  case (4 k v acc c cs)
  then show ?case by (auto split: if_splits option.splits)
qed

lemma ws_not_digit: "json_ws c \<Longrightarrow> \<not> is_digit c"
  by (auto simp: json_ws_def is_digit_def)

lemma takeWhile_digits_append:
  assumes "list_all json_ws q"
  shows "takeWhile is_digit (x @ q) = takeWhile is_digit x"
    and "dropWhile is_digit (x @ q) = dropWhile is_digit x @ q"
proof -
  have "takeWhile is_digit q = []" "dropWhile is_digit q = q"
    using assms by (cases q; simp add: ws_not_digit)+
  then show "takeWhile is_digit (x @ q) = takeWhile is_digit x"
    and "dropWhile is_digit (x @ q) = dropWhile is_digit x @ q"
    by (induction x) simp_all
qed

lemma ws_head:
  assumes "list_all json_ws q"
  shows "q = [] \<or> (\<exists>c b. q = c # b \<and> json_ws c)"
  using assms by (cases q) simp_all

lemma scan_sign_append:
  assumes "list_all json_ws q" and "scan_sign (x @ q) = (neg, r)"
  shows "\<exists>r'. r = r' @ q \<and> scan_sign x = (neg, r')"
proof (cases x)
  case Nil
  with assms ws_head [OF assms(1)] show ?thesis
    by (auto simp: scan_sign_def json_ws_def split: if_splits)
next
  case (Cons c t)
  with assms(2) show ?thesis by (auto simp: scan_sign_def split: if_splits)
qed

lemma scan_int_append:
  assumes "list_all json_ws q" and "scan_int (x @ q) = Some (ds, r)"
  shows "\<exists>r'. r = r' @ q \<and> scan_int x = Some (ds, r')"
proof (cases x)
  case Nil
  with assms ws_head [OF assms(1)] show ?thesis
    by (auto simp: scan_int_def json_ws_def is_digit_def split: if_splits)
next
  case (Cons c t)
  with assms(2) takeWhile_digits_append [OF assms(1), of t] show ?thesis
    by (auto simp: scan_int_def split: if_splits)
qed

lemma scan_frac_append:
  assumes "list_all json_ws q" and "scan_frac (x @ q) = Some (ds, r)"
  shows "\<exists>r'. r = r' @ q \<and> scan_frac x = Some (ds, r')"
proof (cases x)
  case Nil
  with assms ws_head [OF assms(1)] show ?thesis
    by (auto simp: scan_frac_def json_ws_def split: if_splits)
next
  case (Cons c t)
  with assms(2) takeWhile_digits_append [OF assms(1), of t] show ?thesis
    by (auto simp: scan_frac_def split: if_splits)
qed

lemma scan_exp_sign_append:
  assumes "list_all json_ws q" and "scan_exp_sign (x @ q) = (neg, r)"
  shows "\<exists>r'. r = r' @ q \<and> scan_exp_sign x = (neg, r')"
proof (cases x)
  case Nil
  with assms ws_head [OF assms(1)] show ?thesis
    by (auto simp: scan_exp_sign_def json_ws_def split: if_splits)
next
  case (Cons c t)
  with assms(2) show ?thesis by (auto simp: scan_exp_sign_def split: if_splits)
qed

lemma scan_exp_append:
  assumes "list_all json_ws q" and "scan_exp (x @ q) = Some (ex, r)"
  shows "\<exists>r'. r = r' @ q \<and> scan_exp x = Some (ex, r')"
proof (cases x)
  case Nil
  with assms ws_head [OF assms(1)] show ?thesis
    by (auto simp: scan_exp_def json_ws_def split: if_splits)
next
  case (Cons c t)
  show ?thesis
  proof (cases "c = 101 \<or> c = 69")
    case False
    with assms(2) Cons show ?thesis by (simp add: scan_exp_def)
  next
    case True
    obtain neg t0 where sg: "scan_exp_sign (t @ q) = (neg, t0)" by (cases "scan_exp_sign (t @ q)")
    from scan_exp_sign_append [OF assms(1) sg] obtain t' where
      t': "t0 = t' @ q" "scan_exp_sign t = (neg, t')" by blast
    from assms(2) Cons True sg t' takeWhile_digits_append [OF assms(1), of t'] show ?thesis
      by (auto simp: scan_exp_def split: if_splits)
  qed
qed

lemma scan_number_append:
  assumes "list_all json_ws q" and "scan_number (x @ q) = Some (v, r)"
  shows "\<exists>r'. r = r' @ q \<and> scan_number x = Some (v, r')"
proof -
  obtain neg s1 where 1: "scan_sign (x @ q) = (neg, s1)" by (cases "scan_sign (x @ q)")
  from assms(2) 1 obtain ip s2 where 2: "scan_int s1 = Some (ip, s2)"
    by (auto simp: scan_number_def split: option.splits)
  from assms(2) 1 2 obtain fp s3 where 3: "scan_frac s2 = Some (fp, s3)"
    by (auto simp: scan_number_def split: option.splits)
  from assms(2) 1 2 3 obtain ex where 4: "scan_exp s3 = Some (ex, r)"
    and v: "v = decimal neg (ip @ fp) (ex - int (length fp))"
    by (auto simp: scan_number_def split: option.splits)
  from scan_sign_append [OF assms(1) 1] obtain x1 where
    a: "s1 = x1 @ q" "scan_sign x = (neg, x1)" by blast
  from scan_int_append [OF assms(1) 2 [unfolded a(1)]] obtain x2 where
    b: "s2 = x2 @ q" "scan_int x1 = Some (ip, x2)" by blast
  from scan_frac_append [OF assms(1) 3 [unfolded b(1)]] obtain x3 where
    c: "s3 = x3 @ q" "scan_frac x2 = Some (fp, x3)" by blast
  from scan_exp_append [OF assms(1) 4 [unfolded c(1)]] obtain x4 where
    d: "r = x4 @ q" "scan_exp x3 = Some (ex, x4)" by blast
  show ?thesis using a b c d v by (simp add: scan_number_def)
qed

lemma literal_append:
  assumes "list_all json_ws q" and "\<forall>c\<in>set pat. \<not> json_ws c"
  shows "prefix pat (u @ q) \<longleftrightarrow> prefix pat u"
proof (cases q)
  case Nil
  then show ?thesis by simp
next
  case (Cons c b)
  with assms have "c \<notin> set pat" by auto
  then show ?thesis unfolding Cons by (rule prefix_barrier)
qed

lemma literals_append:
  assumes "list_all json_ws q"
  shows "prefix (str ''true'') (u @ q) \<longleftrightarrow> prefix (str ''true'') u"
    and "prefix (str ''false'') (u @ q) \<longleftrightarrow> prefix (str ''false'') u"
    and "prefix (str ''null'') (u @ q) \<longleftrightarrow> prefix (str ''null'') u"
  by (rule literal_append [OF assms], simp add: str_def json_ws_def)+

lemma skip_ws_append_Cons:
  assumes "list_all json_ws q" and "skip_ws (x @ q) = d # r"
  shows "\<exists>r'. r = r' @ q \<and> skip_ws x = d # r'"
  using assms(2) unfolding skip_ws_append_ws [OF assms(1)]
  by (cases "skip_ws x") (auto split: if_splits)

lemma skip_ws_append_rest:
  assumes "list_all json_ws q" and "skip_ws (x @ q) \<noteq> []"
  shows "skip_ws (x @ q) = skip_ws x @ q"
  using assms(2) unfolding skip_ws_append_ws [OF assms(1)] by (simp split: if_splits)

lemma parse_value_ws:
  assumes "list_all json_ws q"
  shows "parse_value q = None"
proof (cases q)
  case Nil
  then show ?thesis by simp
next
  case (Cons c b)
  with assms have "c = 9 \<or> c = 10 \<or> c = 13 \<or> c = 32" by (simp add: json_ws_def)
  then show ?thesis unfolding Cons
    by (auto simp: scan_number_def scan_sign_def scan_int_def is_digit_def str_def)
qed

lemma parse_members_ws:
  assumes "list_all json_ws q"
  shows "parse_members acc q = None"
proof (cases q)
  case Nil
  then show ?thesis by simp
next
  case (Cons c b)
  with assms have "c = 9 \<or> c = 10 \<or> c = 13 \<or> c = 32" by (simp add: json_ws_def)
  then show ?thesis unfolding Cons by auto
qed

lemma drop_literal:
  assumes "prefix pat u" and "length pat = n"
  shows "drop n (u @ q) = drop n u @ q"
  using assms prefix_length_le [of pat u] by simp

lemma parse_trailing_ws:
  assumes q: "list_all json_ws q"
  shows "parse_value (cs @ q) = Some (v, r) \<Longrightarrow>
           \<exists>r'. r = r' @ q \<and> parse_value cs = Some (v, r')"
    and "parse_elements acc (cs2 @ q) = Some (vs, r2) \<Longrightarrow>
           \<exists>r'. r2 = r' @ q \<and> parse_elements acc cs2 = Some (vs, r')"
    and "parse_members acc3 (cs3 @ q) = Some (kvs3, r3) \<Longrightarrow>
           \<exists>r'. r3 = r' @ q \<and> parse_members acc3 cs3 = Some (kvs3, r')"
proof (induction cs and acc cs2 and acc3 cs3 arbitrary: v r and vs r2 and kvs3 r3
        rule: parse_value_parse_elements_parse_members.induct)
  case 1
  then show ?case using parse_value_ws [OF q] by simp
next
  case (2 c cs)
  note ih_members = "2.IH"(1) and ih_elements = "2.IH"(2)
  from "2.prems" have p: "parse_value (c # cs @ q) = Some (v, r)" by simp
  consider (obj) "c = 123" | (arr) "c \<noteq> 123" "c = 91" | (strg) "c \<noteq> 123" "c \<noteq> 91" "c = 34"
    | (other) "c \<noteq> 123" "c \<noteq> 91" "c \<noteq> 34"
    by blast
  then show ?case
  proof cases
    case obj
    with p obtain d r0 where sk0: "skip_ws (cs @ q) = d # r0"
      by (auto split: list.splits)
    from skip_ws_append_Cons [OF q sk0] obtain r1 where
      r0: "r0 = r1 @ q" and sk: "skip_ws cs = d # r1" by blast
    show ?thesis
    proof (cases "d = 125")
      case True
      with p obj sk0 have "r = r0" "v = JObject []" by simp_all
      with obj sk True r0 show ?thesis by simp
    next
      case False
      with p obj sk0 obtain kvs where pm: "parse_members [] (d # r0) = Some (kvs, r)"
        and v: "v = JObject kvs"
        by (auto split: option.splits)
      from pm r0 have "parse_members [] ((d # r1) @ q) = Some (kvs, r)" by simp
      from ih_members [OF obj sk False this] obtain r' where
        "r = r' @ q" "parse_members [] (d # r1) = Some (kvs, r')" by blast
      with obj sk False v show ?thesis by simp
    qed
  next
    case arr
    with p obtain d r0 where sk0: "skip_ws (cs @ q) = d # r0"
      by (auto split: list.splits)
    from skip_ws_append_Cons [OF q sk0] obtain r1 where
      r0: "r0 = r1 @ q" and sk: "skip_ws cs = d # r1" by blast
    show ?thesis
    proof (cases "d = 93")
      case True
      with p arr sk0 have "r = r0" "v = JArray []" by simp_all
      with arr sk True r0 show ?thesis by simp
    next
      case False
      with p arr sk0 obtain els where pm: "parse_elements [] (d # r0) = Some (els, r)"
        and v: "v = JArray els"
        by (auto split: option.splits)
      from pm r0 have "parse_elements [] ((d # r1) @ q) = Some (els, r)" by simp
      from ih_elements [OF arr sk False this] obtain r' where
        "r = r' @ q" "parse_elements [] (d # r1) = Some (els, r')" by blast
      with arr sk False v show ?thesis by simp
    qed
  next
    case strg
    with p obtain s where ss: "scan_string Plain [] (cs @ q) = Some (s, r)" and v: "v = JString s"
      by (auto split: option.splits)
    from scan_string_append [OF q ss] obtain r' where
      "r = r' @ q" "scan_string Plain [] cs = Some (s, r')" by blast
    with strg v show ?thesis by simp
  next
    case other
    note lit = literals_append [OF q, of "c # cs"]
    consider (t) "prefix (str ''true'') (c # cs)"
      | (f) "\<not> prefix (str ''true'') (c # cs)" "prefix (str ''false'') (c # cs)"
      | (n) "\<not> prefix (str ''true'') (c # cs)" "\<not> prefix (str ''false'') (c # cs)"
            "prefix (str ''null'') (c # cs)"
      | (num) "\<not> prefix (str ''true'') (c # cs)" "\<not> prefix (str ''false'') (c # cs)"
            "\<not> prefix (str ''null'') (c # cs)"
      by blast
    then show ?thesis
    proof cases
      case t
      with "2.prems" other lit have "v = JBool True" "r = drop 4 ((c # cs) @ q)" by simp_all
      moreover have "drop 4 ((c # cs) @ q) = drop 4 (c # cs) @ q"
        using t by (rule drop_literal) (simp add: str_def)
      ultimately show ?thesis using t other by simp
    next
      case f
      with "2.prems" other lit have "v = JBool False" "r = drop 5 ((c # cs) @ q)" by simp_all
      moreover have "drop 5 ((c # cs) @ q) = drop 5 (c # cs) @ q"
        using f(2) by (rule drop_literal) (simp add: str_def)
      ultimately show ?thesis using f other by simp
    next
      case n
      with "2.prems" other lit have "v = JNull" "r = drop 4 ((c # cs) @ q)" by simp_all
      moreover have "drop 4 ((c # cs) @ q) = drop 4 (c # cs) @ q"
        using n(3) by (rule drop_literal) (simp add: str_def)
      ultimately show ?thesis using n other by simp
    next
      case num
      with "2.prems" other lit have sn: "scan_number ((c # cs) @ q) = Some (v, r)" by simp
      from scan_number_append [OF q sn] obtain r' where
        "r = r' @ q" "scan_number (c # cs) = Some (v, r')" by blast
      with num other show ?thesis by simp
    qed
  qed
next
  case (3 acc cs)
  note ih_value = "3.IH"(1) and ih_rest = "3.IH"(2) and p = "3.prems"
  from p obtain v r where pv0: "parse_value (cs @ q) = Some (v, r)"
    by (auto split: option.splits)
  with p have len0: "length r < length (cs @ q)" by (auto split: if_splits)
  with p pv0 obtain d r0 where sk0: "skip_ws r = d # r0"
    by (auto split: list.splits)
  from ih_value [OF pv0] obtain r' where r: "r = r' @ q" and pv: "parse_value cs = Some (v, r')"
    by blast
  from len0 r have len: "length r' < length cs" by simp
  from skip_ws_append_Cons [OF q sk0 [unfolded r]] obtain r1 where
    r0: "r0 = r1 @ q" and sk: "skip_ws r' = d # r1" by blast
  show ?case
  proof (cases "d = 44")
    case True
    with p pv0 len0 sk0 have pe: "parse_elements (acc @ [v]) (skip_ws r0) = Some (vs, r2)"
      by simp
    then have "skip_ws r0 \<noteq> []" by auto
    then have "skip_ws r0 = skip_ws r1 @ q" unfolding r0 by (rule skip_ws_append_rest [OF q])
    with pe have "parse_elements (acc @ [v]) (skip_ws r1 @ q) = Some (vs, r2)" by simp
    from ih_rest [OF pv _ len sk True this] obtain r'' where
      "r2 = r'' @ q" "parse_elements (acc @ [v]) (skip_ws r1) = Some (vs, r'')" by auto
    with pv len sk True show ?thesis by simp
  next
    case False
    with p pv0 len0 sk0 have "d = 93" "r2 = r0" "vs = acc @ [v]" by (auto split: if_splits)
    with pv len sk r0 show ?thesis by simp
  qed
next
  case (4 acc)
  then show ?case using parse_members_ws [OF q] by simp
next
  case (5 acc c cs)
  note ih_value = "5.IH"(1) and ih_rest = "5.IH"(2)
  from "5.prems" have p: "parse_members acc (c # cs @ q) = Some (kvs3, r3)" by simp
  from p have c: "c = 34" by (auto split: if_splits)
  with p obtain k s1 where ss0: "scan_string Plain [] (cs @ q) = Some (k, s1)"
    by (auto split: option.splits)
  with p c obtain d s2 where sk10: "skip_ws s1 = d # s2"
    by (auto split: list.splits)
  with p c ss0 have d: "d = 58" by (auto split: if_splits)
  with p c ss0 sk10 obtain v s3 where pv0: "parse_value (skip_ws s2) = Some (v, s3)"
    by (auto split: option.splits)
  with p c ss0 sk10 d have len0: "length s3 < length (skip_ws s2)" by (auto split: if_splits)
  with p c ss0 sk10 d pv0 obtain e s4 where sk30: "skip_ws s3 = e # s4"
    by (auto split: list.splits)
  from scan_string_append [OF q ss0] obtain r1 where
    s1: "s1 = r1 @ q" and ss: "scan_string Plain [] cs = Some (k, r1)" by blast
  from skip_ws_append_Cons [OF q sk10 [unfolded s1]] obtain r2 where
    s2: "s2 = r2 @ q" and sk1: "skip_ws r1 = d # r2" by blast
  from pv0 have "skip_ws s2 \<noteq> []" by auto
  then have sk2: "skip_ws s2 = skip_ws r2 @ q" unfolding s2 by (rule skip_ws_append_rest [OF q])
  from pv0 sk2 have "parse_value (skip_ws r2 @ q) = Some (v, s3)" by simp
  from ih_value [OF c ss _ sk1 d this] obtain r3' where
    s3: "s3 = r3' @ q" and pv: "parse_value (skip_ws r2) = Some (v, r3')" by auto
  from len0 sk2 s3 have len: "length r3' < length (skip_ws r2)" by simp
  from skip_ws_append_Cons [OF q sk30 [unfolded s3]] obtain r4 where
    s4: "s4 = r4 @ q" and sk3: "skip_ws r3' = e # r4" by blast
  show ?case
  proof (cases "e = 44")
    case True
    with p c ss0 sk10 d pv0 len0 sk30
    have pm: "parse_members (obj_put k v acc) (skip_ws s4) = Some (kvs3, r3)" by simp
    then have "skip_ws s4 \<noteq> []" by auto
    then have "skip_ws s4 = skip_ws r4 @ q" unfolding s4 by (rule skip_ws_append_rest [OF q])
    with pm have "parse_members (obj_put k v acc) (skip_ws r4 @ q) = Some (kvs3, r3)" by simp
    from ih_rest [OF c ss _ sk1 d pv _ len sk3 True this] obtain r'' where
      "r3 = r'' @ q" "parse_members (obj_put k v acc) (skip_ws r4) = Some (kvs3, r'')" by auto
    with c ss sk1 d pv len sk3 True show ?thesis by simp
  next
    case False
    with p c ss0 sk10 d pv0 len0 sk30 have "e = 125" "r3 = s4" "kvs3 = obj_put k v acc"
      by (auto split: if_splits)
    with c ss sk1 d pv len sk3 s4 show ?thesis by simp
  qed
qed


section \<open>The claims about \<open>callGeminiAPI\<close>\<close>

lemma callGeminiAPI_traced_eq:
  "callGeminiAPI_traced fetch code sent = (after_fetch (fetch code), sent @ [code])"
  by (simp add: callGeminiAPI_traced_def fetch_call_def)

lemma callGeminiAPI_value: "callGeminiAPI fetch code = after_fetch (fetch code)"
  by (simp add: callGeminiAPI_def callGeminiAPI_traced_eq)

lemma json_object_text:
  assumes "json_parse t = Some (JObject kvs)"
  shows "\<exists>p mid q. t = p @ 123 # mid @ 125 # q \<and> list_all json_ws p \<and> list_all json_ws q"
proof -
  from assms obtain r where pv: "parse_value (skip_ws t) = Some (JObject kvs, r)"
    and r: "skip_ws r = []"
    by (auto simp: json_parse_def split: option.splits if_splits)
  from parse_shape(1) [OF pv] obtain mid where mid: "skip_ws t = 123 # mid @ 125 # r"
    by blast
  have "t = takeWhile json_ws t @ skip_ws t" by (simp add: skip_ws_def)
  then have "t = takeWhile json_ws t @ 123 # mid @ 125 # r" using mid by simp
  moreover have "list_all json_ws (takeWhile json_ws t)"
    by (simp add: list_all_iff) (meson set_takeWhileD)
  moreover have "list_all json_ws r" using r by (simp add: skip_ws_def list_all_iff)
  ultimately show ?thesis by blast
qed

lemma json_ws_spaces: "list_all json_ws w \<Longrightarrow> list_all js_space w"
  by (auto simp: list_all_iff json_ws_space)

lemma clean_response_object_text:
  assumes "json_parse t = Some (JObject kvs)"
    and "list_all js_space w1" "list_all js_space w2" "list_all js_space w3" "list_all js_space w4"
  shows "clean_response (w1 @ fence_json @ w2 @ t @ w3 @ fence @ w4) = clean_response t"
proof -
  from json_object_text [OF assms(1)] obtain p mid q
    where t: "t = p @ 123 # mid @ 125 # q" and p: "list_all json_ws p" and q: "list_all json_ws q"
    by blast
  show ?thesis
    unfolding t
    using clean_response_fenced [OF assms(2-5) json_ws_spaces [OF p] json_ws_spaces [OF q]] .
qed

lemma json_parse_trim:
  assumes "json_parse t = Some (JObject kvs)"
  shows "json_parse (trim t) = Some (JObject kvs)"
proof -
  from assms obtain r where pv: "parse_value (skip_ws t) = Some (JObject kvs, r)"
    and r: "skip_ws r = []"
    by (auto simp: json_parse_def split: option.splits if_splits)
  from parse_shape(1) [OF pv] obtain mid where mid: "skip_ws t = 123 # mid @ 125 # r"
    by blast
  have wr: "list_all json_ws r" using r by (simp add: skip_ws_def list_all_iff)
  have wp: "list_all json_ws (takeWhile json_ws t)"
    by (simp add: list_all_iff) (meson set_takeWhileD)
  have "t = takeWhile json_ws t @ skip_ws t" by (simp add: skip_ws_def)
  then have t: "t = takeWhile json_ws t @ 123 # mid @ 125 # r" using mid by simp
  have "trim (takeWhile json_ws t @ 123 # mid @ 125 # r) = 123 # mid @ [125]"
    by (rule trim_core [OF json_ws_spaces [OF wp] json_ws_spaces [OF wr]])
       (simp_all add: js_space_def)
  then have tr: "trim t = 123 # mid @ [125]" using t by simp
  from pv mid have "parse_value ((123 # mid @ [125]) @ r) = Some (JObject kvs, r)" by simp
  from parse_trailing_ws(1) [OF wr this]
  have "parse_value (123 # mid @ [125]) = Some (JObject kvs, [])" by auto
  then show ?thesis unfolding tr by (simp add: json_parse_def skip_ws_def json_ws_def)
qed

lemma replace_all_absent:
  assumes "pat \<noteq> []"
  shows "\<not> sublist pat s \<Longrightarrow> replace_all pat rep s = s"
proof (induction s)
  case Nil
  with assms show ?case by simp
next
  case (Cons c cs)
  from Cons.prems have "\<not> prefix pat (c # cs)" and "\<not> sublist pat cs"
    by (auto simp: sublist_Cons_right)
  with assms Cons.IH show ?case by simp
qed

lemma fence_in_fence_json:
  assumes "sublist fence_json s"
  shows "sublist fence s"
proof -
  have "sublist fence fence_json"
    by (simp add: fence_def fence_json_def sublist_def) (metis append_Nil)
  then show ?thesis using assms sublist_order.order.trans by blast
qed

lemma clean_response_plain:
  assumes "\<not> sublist fence t"
  shows "clean_response t = trim t"
proof -
  have "\<not> sublist fence_json t" using assms fence_in_fence_json by blast
  then have "replace_all fence_json [] t = t"
    by (intro replace_all_absent) (simp add: fence_json_def)
  moreover have "replace_all fence [] t = t"
    using assms by (intro replace_all_absent) (simp add: fence_def)
  ultimately show ?thesis by (simp add: clean_response_def)
qed

text \<open>
  C1. A candidate text that is a JSON object text \<open>t\<close> wrapped in a leading
  \<open>```json\<close> fence and a trailing \<open>```\<close> fence, with any white space around the fences,
  gives the same result of \<open>callGeminiAPI\<close> as the bare \<open>t\<close>. That result is the parse of
  \<open>t\<close> after cleaning, or the error of an invalid response when the cleaned text does not
  parse; and when \<open>t\<close> has no \<open>```\<close> inside, it is the object that \<open>t\<close> itself parses to.
\<close>

theorem fenced_candidate_parses_like_bare:
  assumes "json_parse t = Some (JObject members)"
    and "list_all js_space w1" and "list_all js_space w2"
    and "list_all js_space w3" and "list_all js_space w4"
    and "ok r" and "response_json r = Inr result"
    and "candidate_text result = Inr (Some (JString (w1 @ fence_json @ w2 @ t @ w3 @ fence @ w4)))"
    and "ok r'" and "response_json r' = Inr result'"
    and "candidate_text result' = Inr (Some (JString t))"
  shows "callGeminiAPI (\<lambda>_. Inr r) code = callGeminiAPI (\<lambda>_. Inr r') code
       \<and> callGeminiAPI (\<lambda>_. Inr r) code
           = (case json_parse (clean_response t) of
                Some v \<Rightarrow> Inr v
              | None \<Rightarrow> Inl (Error (str ''The AI returned an invalid response. Please try again.'')))
       \<and> (\<not> sublist fence t \<longrightarrow> callGeminiAPI (\<lambda>_. Inr r) code = Inr (JObject members))"
proof -
  note cleaned = clean_response_object_text [OF assms(1-5)]
  have fenced: "callGeminiAPI (\<lambda>_. Inr r) code
           = (case json_parse (clean_response t) of
                Some v \<Rightarrow> Inr v
              | None \<Rightarrow> Inl (Error (str ''The AI returned an invalid response. Please try again.'')))"
    using assms(6-8) cleaned by (simp add: callGeminiAPI_value after_fetch_def and_then_def)
  have bare: "callGeminiAPI (\<lambda>_. Inr r') code
           = (case json_parse (clean_response t) of
                Some v \<Rightarrow> Inr v
              | None \<Rightarrow> Inl (Error (str ''The AI returned an invalid response. Please try again.'')))"
    using assms(9-11) by (simp add: callGeminiAPI_value after_fetch_def and_then_def)
  have plain: "\<not> sublist fence t \<longrightarrow> callGeminiAPI (\<lambda>_. Inr r) code = Inr (JObject members)"
  proof
    assume free: "\<not> sublist fence t"
    show "callGeminiAPI (\<lambda>_. Inr r) code = Inr (JObject members)"
      unfolding fenced clean_response_plain [OF free] json_parse_trim [OF assms(1)] by simp
  qed
  show ?thesis using fenced bare plain by simp
qed

theorem fenced_candidate_example:
  "json_parse review_ok
     = Some (JObject [(str ''review'', JString (str ''ok'')), (str ''updatedCode'', JString []),
                      (str ''score'', JNumber 90 0)])
   \<and> \<not> sublist fence review_ok
   \<and> callGeminiAPI (\<lambda>_. Inr (gemini_reply (fence_json @ [10] @ review_ok @ [10] @ fence))) []
     = callGeminiAPI (\<lambda>_. Inr (gemini_reply review_ok)) []
   \<and> callGeminiAPI (\<lambda>_. Inr (gemini_reply (fence_json @ [10] @ review_ok @ [10] @ fence))) []
     = Inr (JObject [(str ''review'', JString (str ''ok'')), (str ''updatedCode'', JString []),
                     (str ''score'', JNumber 90 0)])"
proof -
  let ?fenced = "fence_json @ [10] @ review_ok @ [10] @ fence"
  let ?v = "JObject [(str ''review'', JString (str ''ok'')), (str ''updatedCode'', JString []),
                     (str ''score'', JNumber 90 0)]"
  let ?res = "\<lambda>text. JObject [(str ''candidates'', JArray [JObject [(str ''content'',
               JObject [(str ''parts'', JArray [JObject [(str ''text'', JString text)]])])]])]"
  have 1: "json_parse review_ok = Some ?v" by code_simp
  have 2: "list_all js_space []" "list_all js_space [10]" by (simp_all add: js_space_def)
  have 3: "ok (gemini_reply ?fenced)" "ok (gemini_reply review_ok)" by code_simp+
  have 4: "response_json (gemini_reply ?fenced) = Inr (?res ?fenced)" by code_simp
  have 5: "response_json (gemini_reply review_ok) = Inr (?res review_ok)" by code_simp
  have 6: "candidate_text (?res ([] @ fence_json @ [10] @ review_ok @ [10] @ fence @ []))
           = Inr (Some (JString ([] @ fence_json @ [10] @ review_ok @ [10] @ fence @ [])))"
    by code_simp
  have 7: "candidate_text (?res review_ok) = Inr (Some (JString review_ok))" by code_simp
  have 8: "response_json (gemini_reply ?fenced)
            = Inr (?res ([] @ fence_json @ [10] @ review_ok @ [10] @ fence @ []))"
    using 4 by simp
  have 9: "\<not> sublist fence review_ok" by code_simp
  note both = fenced_candidate_parses_like_bare
      [OF 1 2(1) 2(2) 2(2) 2(1) 3(1) 8 6 3(2) 5 7, of "[]"]
  have eq: "callGeminiAPI (\<lambda>_. Inr (gemini_reply ?fenced)) []
            = callGeminiAPI (\<lambda>_. Inr (gemini_reply review_ok)) []"
    using both by blast
  have val: "callGeminiAPI (\<lambda>_. Inr (gemini_reply ?fenced)) [] = Inr ?v"
    using both 9 by blast
  show ?thesis using 1 9 eq val by blast
qed


text \<open>
  C6. A reply whose status is outside 200..299 makes \<open>callGeminiAPI\<close> fail with the error
  \<open>API Error: <status> <reason phrase>\<close>, whatever the body is: the body is never parsed.
\<close>

theorem transport_error_on_failure_status:
  assumes "\<not> ok r"
  shows "callGeminiAPI (\<lambda>_. Inr (r\<lparr>body := b\<rparr>)) code
         = Inl (Error (str ''API Error: '' @ dec (status r) @ str '' '' @ statusText r))"
  using assms by (simp add: callGeminiAPI_value after_fetch_def ok_def)

theorem transport_error_429:
  "\<not> ok \<lparr>status = 429, statusText = str ''Too Many Requests'', body = str ''not json''\<rparr>
   \<and> callGeminiAPI (\<lambda>_. Inr \<lparr>status = 429, statusText = str ''Too Many Requests'',
                                body = str ''{\"candidates\":[]}''\<rparr>) (str ''x = 1'')
     = Inl (Error (str ''API Error: 429 Too Many Requests''))"
proof -
  let ?r = "\<lparr>status = 429, statusText = str ''Too Many Requests'', body = str ''not json''\<rparr>"
  have 1: "\<not> ok ?r" by (simp add: ok_def)
  have 2: "dec 429 = str ''429''" by code_simp
  show ?thesis
    using 1 transport_error_on_failure_status [OF 1, of "str ''{\"candidates\":[]}''" "str ''x = 1''"]
    by (simp add: 2 str_def)
qed

theorem no_candidate_counterexample:
  "callGeminiAPI (\<lambda>_. Inr \<lparr>status = 200, statusText = str ''OK'',
                            body = str ''{\"candidates\":[]}''\<rparr>) []
     = Inl (TypeError (str ''content''))
   \<and> callGeminiAPI (\<lambda>_. Inr \<lparr>status = 200, statusText = str ''OK'',
                              body = str ''{\"candidates\":[{\"finishReason\":\"SAFETY\"}]}''\<rparr>) []
     = Inl (TypeError (str ''parts''))"
  by code_simp

text \<open>
  C8. A success reply without a first candidate makes \<open>callGeminiAPI\<close> fail with the
  engine's TypeError for the property read that hits \<open>undefined\<close>, the kind of error a
  candidate without content gives as well; there is no error of its own for the empty
  reply.
\<close>

theorem no_candidate_type_error:
  assumes "ok r" and "response_json r = Inr result"
    and "first_candidate result = Inr None \<or> (\<exists>e. first_candidate result = Inl e)"
  shows "callGeminiAPI (\<lambda>_. Inr r) code = Inl (TypeError (str ''content''))
       \<or> callGeminiAPI (\<lambda>_. Inr r) code = Inl (TypeError (str ''0''))
       \<or> callGeminiAPI (\<lambda>_. Inr r) code = Inl (TypeError (str ''candidates''))"
proof -
  have d0: "dec 0 = str ''0''" by (simp add: dec.simps str_def)
  from assms(3) show ?thesis
  proof
    assume "first_candidate result = Inr None"
    then show ?thesis using assms(1,2)
      by (simp add: callGeminiAPI_value after_fetch_def and_then_def candidate_text_def)
  next
    assume "\<exists>e. first_candidate result = Inl e"
    then obtain e where e: "first_candidate result = Inl e" by blast
    have "e = TypeError (str ''0'') \<or> e = TypeError (str ''candidates'')"
    proof (cases "get_prop (Some result) (str ''candidates'')")
      case (Inl e')
      then have "e' = TypeError (str ''candidates'')"
        by (cases result) auto
      with Inl e show ?thesis by (simp add: first_candidate_def and_then_def)
    next
      case (Inr c)
      with e have "get_index c 0 = Inl e" by (simp add: first_candidate_def and_then_def)
      then have "e = TypeError (dec 0)"
        by (cases "(c, 0::nat)" rule: get_index.cases) (auto split: if_splits)
      then show ?thesis by (simp add: d0)
    qed
    then show ?thesis using assms(1,2) e
      by (auto simp: callGeminiAPI_value after_fetch_def and_then_def candidate_text_def)
  qed
qed

theorem no_candidate_type_error_witness:
  "ok \<lparr>status = 200, statusText = str ''OK'', body = str ''{}''\<rparr>
   \<and> response_json \<lparr>status = 200, statusText = str ''OK'', body = str ''{}''\<rparr> = Inr (JObject [])
   \<and> first_candidate (JObject []) = Inl (TypeError (str ''0''))
   \<and> callGeminiAPI (\<lambda>_. Inr \<lparr>status = 200, statusText = str ''OK'', body = str ''{}''\<rparr>) []
     = Inl (TypeError (str ''0''))"
proof -
  let ?r = "\<lparr>status = 200, statusText = str ''OK'', body = str ''{}''\<rparr>"
  have 1: "ok ?r" by code_simp
  have 2: "response_json ?r = Inr (JObject [])" by code_simp
  have 3: "first_candidate (JObject []) = Inl (TypeError (str ''0''))" by code_simp
  have 4: "first_candidate (JObject []) = Inr None \<or> (\<exists>e. first_candidate (JObject []) = Inl e)"
    using 3 by simp
  have 5: "callGeminiAPI (\<lambda>_. Inr ?r) [] = Inl (TypeError (str ''0''))" by code_simp
  from no_candidate_type_error [OF 1 2 4, of "[]"] 1 2 3 5 show ?thesis by simp
qed








section \<open>The rendering helpers\<close>

lemma format_two_bullets:
  "formatReviewAsHtml (str ''* a\<newline>* b'')
   = str ''<ul class=\"space-y-2\"><li class=\"ml-5 list-disc\">a</li><li class=\"ml-5 list-disc\">b</li></ul>''"
  by code_simp

lemma format_empty: "formatReviewAsHtml [] = str ''<ul class=\"space-y-2\"></ul>''"
  by code_simp

lemma format_no_asterisk:
  "formatReviewAsHtml (str '' plain line '')
   = str ''<ul class=\"space-y-2\"><li class=\"ml-5 list-disc\">plain line</li></ul>''"
  by code_simp

text \<open>
  C2. The item of a line is cut out of the trimmed line at the position the asterisk has
  in the untrimmed line, so a bullet behind leading white space loses text after its
  asterisk: the line \<open>  * a\<close> gives an empty item, not \<open>a\<close>.
\<close>

theorem format_indented_bullet:
  "formatReviewAsHtml (str ''  * a'')
   = str ''<ul class=\"space-y-2\"><li class=\"ml-5 list-disc\"></li></ul>''"
  by code_simp

lemma after_ticks_Suc:
  "after_ticks (Suc n) finalScore a = interval_tick finalScore (after_ticks n finalScore a)"
  by (simp add: after_ticks_def)

lemma stopped_timer_stays:
  "\<not> timer_active a \<Longrightarrow> after_ticks n finalScore a = a"
  by (induction n) (simp_all add: after_ticks_Suc interval_tick_def, simp add: after_ticks_def)

lemma animation_counts_up:
  assumes "int n < finalScore" and "finalScore \<le> 2 ^ 53"
  shows "after_ticks n finalScore (animateScore finalScore shown)
         = \<lparr>currentScore = int n, timer_active = True,
            scoreDisplay_text = (if n = 0 then shown else int_to_string (int n))\<rparr>"
  using assms
proof (induction n)
  case 0
  then show ?case by (simp add: after_ticks_def animateScore_def)
next
  case (Suc n)
  then have "after_ticks n finalScore (animateScore finalScore shown)
         = \<lparr>currentScore = int n, timer_active = True,
            scoreDisplay_text = (if n = 0 then shown else int_to_string (int n))\<rparr>"
    by simp
  moreover have "int n < 2 ^ 53" using Suc.prems by simp
  ultimately show ?case using Suc.prems
    by (simp add: after_ticks_Suc interval_tick_def js_increment_def Let_def add.commute)
qed

lemma animation_reaches_target:
  assumes "1 \<le> finalScore" and "finalScore \<le> 2 ^ 53"
  shows "after_ticks (nat finalScore + k) finalScore (animateScore finalScore shown)
         = \<lparr>currentScore = finalScore, timer_active = False,
            scoreDisplay_text = int_to_string finalScore\<rparr>"
proof -
  obtain n where n: "nat finalScore = Suc n" using assms(1) by (cases "nat finalScore") auto
  then have lt: "int n < finalScore" by linarith
  have eq: "int n + 1 = finalScore" using n by linarith
  have "int n < 2 ^ 53" using lt assms(2) by simp
  then have stop: "after_ticks (nat finalScore) finalScore (animateScore finalScore shown)
        = \<lparr>currentScore = finalScore, timer_active = False,
           scoreDisplay_text = int_to_string finalScore\<rparr>"
    using animation_counts_up [OF lt assms(2), of shown] eq
    by (simp add: n after_ticks_Suc interval_tick_def js_increment_def Let_def)
  have "after_ticks (nat finalScore + k) finalScore (animateScore finalScore shown)
        = after_ticks k finalScore (after_ticks (nat finalScore) finalScore
            (animateScore finalScore shown))"
    by (simp add: after_ticks_def funpow_add add.commute)
  then show ?thesis using stop stopped_timer_stays by simp
qed

lemma animation_of_nonpositive_score:
  assumes "finalScore \<le> 0"
  shows "after_ticks (Suc k) finalScore (animateScore finalScore shown)
         = \<lparr>currentScore = 1, timer_active = False, scoreDisplay_text = int_to_string 1\<rparr>"
proof -
  have "after_ticks 1 finalScore (animateScore finalScore shown)
        = \<lparr>currentScore = 1, timer_active = False, scoreDisplay_text = int_to_string 1\<rparr>"
    using assms
    by (simp add: after_ticks_def interval_tick_def animateScore_def js_increment_def Let_def)
  moreover have "after_ticks (Suc k) finalScore (animateScore finalScore shown)
        = after_ticks k finalScore (after_ticks 1 finalScore (animateScore finalScore shown))"
    by (simp add: after_ticks_def funpow_swap1)
  ultimately show ?thesis using stopped_timer_stays by simp
qed

lemma animation_42:
  "after_ticks 42 42 (animateScore 42 (str ''N/A''))
     = \<lparr>currentScore = 42, timer_active = False, scoreDisplay_text = str ''42''\<rparr>
   \<and> after_ticks 100 42 (animateScore 42 (str ''N/A''))
     = \<lparr>currentScore = 42, timer_active = False, scoreDisplay_text = str ''42''\<rparr>"
proof -
  have "int_to_string 42 = str ''42''" by code_simp
  then show ?thesis
    using animation_reaches_target [of 42 0 "str ''N/A''"]
      animation_reaches_target [of 42 58 "str ''N/A''"] by simp
qed

text \<open>
  C5. The counter is incremented before it is compared with the score, so a score of 0
  (the lowest the prompt asks for) is displayed as 1: after the first tick the display
  reads \<open>1\<close>, the timer is stopped and later ticks change nothing.
\<close>

theorem animation_of_zero_shows_one:
  "after_ticks 1 0 (animateScore 0 (str ''N/A''))
     = \<lparr>currentScore = 1, timer_active = False, scoreDisplay_text = str ''1''\<rparr>
   \<and> after_ticks 50 0 (animateScore 0 (str ''N/A''))
     = \<lparr>currentScore = 1, timer_active = False, scoreDisplay_text = str ''1''\<rparr>"
proof -
  have "int_to_string 1 = str ''1''" by code_simp
  then show ?thesis
    using animation_of_nonpositive_score [of 0 0 "str ''N/A''"]
      animation_of_nonpositive_score [of 0 49 "str ''N/A''"] by simp
qed


section \<open>The click handler of the review button\<close>

lemma page_step_in_flight:
  assumes "reviewBtn_disabled (fst st)"
  shows "reviewBtn_disabled (fst (page_step fetch st ev))
         \<and> loader_hidden (fst (page_step fetch st ev)) = loader_hidden (fst st)
         \<and> snd (page_step fetch st ev) = snd st"
  using assms by (cases st; cases ev) (simp_all add: hideError_def)

lemma page_steps_in_flight:
  assumes "reviewBtn_disabled (fst st)"
  shows "reviewBtn_disabled (fst (page_steps fetch st evs))
         \<and> loader_hidden (fst (page_steps fetch st evs)) = loader_hidden (fst st)
         \<and> snd (page_steps fetch st evs) = snd st"
  using assms unfolding page_steps_def
proof (induction evs arbitrary: st)
  case Nil
  then show ?case by simp
next
  case (Cons ev evs)
  from page_step_in_flight [OF Cons.prems, of fetch ev]
  have 1: "reviewBtn_disabled (fst (page_step fetch st ev))"
    and 2: "loader_hidden (fst (page_step fetch st ev)) = loader_hidden (fst st)"
    and 3: "snd (page_step fetch st ev) = snd st"
    by simp_all
  from Cons.IH [OF 1] show ?case by (simp add: 2 3)
qed

lemma review_settled_controls:
  "\<not> reviewBtn_disabled (review_settled engine outcome p)
   \<and> loader_hidden (review_settled engine outcome p)"
proof -
  obtain p1 thrown where a: "(case outcome of
               Inl e \<Rightarrow> (p, Some e)
             | Inr result \<Rightarrow> render_result result p) = (p1, thrown)"
    by (cases "case outcome of
               Inl e \<Rightarrow> (p, Some e)
             | Inr result \<Rightarrow> render_result result p")
  then show ?thesis
    by (cases thrown) (simp_all add: review_settled_def showError_def)
qed

text \<open>
  C3. With a non-blank input the handler calls \<open>callGeminiAPI\<close> with the trimmed input,
  and that call makes exactly one request: whatever was sent before, the log of requests
  \<open>callGeminiAPI\<close> leaves is the old one with the trimmed input appended. While the call
  is in flight the button is disabled and the spinner shown, and the log stays as it is,
  whatever other events the page handles, further clicks on the button included. When
  the call has settled, whether with a result or with an error, the button is enabled
  again and the spinner hidden.
\<close>

theorem submit_sends_once_and_restores_controls:
  assumes "trim (inputCode p) \<noteq> []"
  shows "review_started fetch (p, sent)
           = (fst (review_click p), snd (callGeminiAPI_traced fetch (trim (inputCode p)) sent))
       \<and> callGeminiAPI_traced fetch (trim (inputCode p)) sent
           = (callGeminiAPI fetch (trim (inputCode p)), sent @ [trim (inputCode p)])
       \<and> snd (review_started fetch (p, sent)) = sent @ [trim (inputCode p)]
       \<and> reviewBtn_disabled (fst (page_steps fetch (review_started fetch (p, sent)) evs))
       \<and> \<not> loader_hidden (fst (page_steps fetch (review_started fetch (p, sent)) evs))
       \<and> snd (page_steps fetch (review_started fetch (p, sent)) evs)
           = sent @ [trim (inputCode p)]
       \<and> \<not> reviewBtn_disabled (review_settled engine (callGeminiAPI fetch (trim (inputCode p)))
              (fst (page_steps fetch (review_started fetch (p, sent)) evs)))
       \<and> loader_hidden (review_settled engine (callGeminiAPI fetch (trim (inputCode p)))
              (fst (page_steps fetch (review_started fetch (p, sent)) evs)))"
proof -
  let ?code = "trim (inputCode p)"
  have click: "review_click p =
      ((hideError p)\<lparr>loader_hidden := False, reviewBtn_disabled := True\<rparr>, Some ?code)"
    using assms by (simp add: review_click_def Let_def)
  have call: "callGeminiAPI_traced fetch ?code sent = (callGeminiAPI fetch ?code, sent @ [?code])"
    by (simp add: callGeminiAPI_traced_eq callGeminiAPI_value)
  have started: "review_started fetch (p, sent)
                 = (fst (review_click p), snd (callGeminiAPI_traced fetch ?code sent))"
    by (simp add: review_started_def click)
  have 1: "reviewBtn_disabled (fst (review_started fetch (p, sent)))"
    and 2: "\<not> loader_hidden (fst (review_started fetch (p, sent)))"
    and 3: "snd (review_started fetch (p, sent)) = sent @ [?code]"
    by (simp_all add: started click call hideError_def)
  show ?thesis
    using started call 1 2 3 page_steps_in_flight [OF 1, of fetch evs]
      review_settled_controls [of engine "callGeminiAPI fetch ?code"
        "fst (page_steps fetch (review_started fetch (p, sent)) evs)"]
    by simp
qed

theorem submit_sends_once_witness:
  "trim (inputCode sample_page) \<noteq> []
   \<and> review_started (\<lambda>code. Inr (gemini_reply review_ok)) (sample_page, [str ''y = 2''])
       = (fst (review_click sample_page), [str ''y = 2'', str ''x = 1''])
   \<and> callGeminiAPI_traced (\<lambda>code. Inl FetchFailed) (str ''x = 1'') []
       = (Inl FetchFailed, [str ''x = 1''])
   \<and> reviewBtn_disabled
        (fst (page_steps (\<lambda>code. Inr (gemini_reply review_ok))
               (review_started (\<lambda>code. Inr (gemini_reply review_ok)) (sample_page, [str ''y = 2'']))
               [CopyClick, ReviewClick, ClearClick]))
   \<and> snd (page_steps (\<lambda>code. Inr (gemini_reply review_ok))
               (review_started (\<lambda>code. Inr (gemini_reply review_ok)) (sample_page, [str ''y = 2'']))
               [CopyClick, ReviewClick, ClearClick])
       = [str ''y = 2'', str ''x = 1'']
   \<and> \<not> reviewBtn_disabled
        (review_settled sample_engine
          (callGeminiAPI (\<lambda>code. Inr (gemini_reply review_ok)) (str ''x = 1''))
          (fst (page_steps (\<lambda>code. Inr (gemini_reply review_ok))
                 (review_started (\<lambda>code. Inr (gemini_reply review_ok))
                    (sample_page, [str ''y = 2'']))
                 [CopyClick, ReviewClick, ClearClick])))
   \<and> loader_hidden
        (review_settled sample_engine (callGeminiAPI (\<lambda>code. Inl FetchFailed) (str ''x = 1''))
          (fst (page_steps (\<lambda>code. Inl FetchFailed)
                 (review_started (\<lambda>code. Inl FetchFailed) (sample_page, []))
                 [CopyClick, ReviewClick, ClearClick])))"
proof -
  let ?ok = "\<lambda>code::jsstring. Inr (gemini_reply review_ok) :: js_error + response"
  let ?ko = "\<lambda>code::jsstring. Inl FetchFailed :: js_error + response"
  let ?evs = "[CopyClick, ReviewClick, ClearClick]"
  have 1: "trim (inputCode sample_page) \<noteq> []" by code_simp
  have 2: "trim (inputCode sample_page) = str ''x = 1''" by code_simp
  have 3: "callGeminiAPI ?ko (str ''x = 1'') = Inl FetchFailed" by code_simp
  note a = submit_sends_once_and_restores_controls
    [OF 1, of ?ok "[str ''y = 2'']" ?evs sample_engine, unfolded 2]
  note b = submit_sends_once_and_restores_controls
    [OF 1, of ?ko "[]" ?evs sample_engine, unfolded 2]
  have a0: "review_started ?ok (sample_page, [str ''y = 2''])
            = (fst (review_click sample_page),
               snd (callGeminiAPI_traced ?ok (str ''x = 1'') [str ''y = 2'']))"
    using a by blast
  have a1: "callGeminiAPI_traced ?ok (str ''x = 1'') [str ''y = 2'']
            = (callGeminiAPI ?ok (str ''x = 1''), [str ''y = 2''] @ [str ''x = 1''])"
    using a by blast
  have a2: "review_started ?ok (sample_page, [str ''y = 2''])
            = (fst (review_click sample_page), [str ''y = 2'', str ''x = 1''])"
    unfolding a0 a1 by simp
  have b0: "callGeminiAPI_traced ?ko (str ''x = 1'') []
            = (callGeminiAPI ?ko (str ''x = 1''), [] @ [str ''x = 1''])"
    using b by blast
  have b1: "callGeminiAPI_traced ?ko (str ''x = 1'') [] = (Inl FetchFailed, [str ''x = 1''])"
    unfolding b0 3 by simp
  have a3: "snd (page_steps ?ok (review_started ?ok (sample_page, [str ''y = 2''])) ?evs)
            = [str ''y = 2''] @ [str ''x = 1'']"
    using a by blast
  have a4: "snd (page_steps ?ok (review_started ?ok (sample_page, [str ''y = 2''])) ?evs)
            = [str ''y = 2'', str ''x = 1'']"
    unfolding a3 by simp
  show ?thesis using 1 a2 b1 a4 a b by blast
qed

text \<open>
  C7. When the call fails (the request is rejected, the status is not a success, the
  body or the candidate text does not parse, or the reply has not the expected shape),
  the handler writes the error banner, hides the spinner and enables the button, and
  nothing else: the corrected-code box, the score display and the review panel keep what
  they held before the click, and no score animation is started.
\<close>

theorem failure_updates_only_the_banner:
  assumes "callGeminiAPI fetch code = Inl e"
  shows "review_settled engine (callGeminiAPI fetch code) q
         = q\<lparr>errorMessage := str ''An error occurred: '' @ error_message engine e,
             errorBox_hidden := False, loader_hidden := True, reviewBtn_disabled := False\<rparr>
       \<and> outputCode (review_settled engine (callGeminiAPI fetch code) (fst (review_click p)))
           = outputCode p
       \<and> scoreDisplay (review_settled engine (callGeminiAPI fetch code) (fst (review_click p)))
           = scoreDisplay p
       \<and> reviewOutput (review_settled engine (callGeminiAPI fetch code) (fst (review_click p)))
           = reviewOutput p
       \<and> animations (review_settled engine (callGeminiAPI fetch code) (fst (review_click p)))
           = animations p"
proof -
  have settle: "\<And>q. review_settled engine (callGeminiAPI fetch code) q
         = q\<lparr>errorMessage := str ''An error occurred: '' @ error_message engine e,
             errorBox_hidden := False, loader_hidden := True, reviewBtn_disabled := False\<rparr>"
    using assms by (simp add: review_settled_def showError_def)
  have click: "outputCode (fst (review_click p)) = outputCode p"
    "scoreDisplay (fst (review_click p)) = scoreDisplay p"
    "reviewOutput (fst (review_click p)) = reviewOutput p"
    "animations (fst (review_click p)) = animations p"
    by (simp_all add: review_click_def Let_def showError_def hideError_def)
  show ?thesis using click by (simp add: settle)
qed

theorem failure_updates_only_the_banner_witness:
  "callGeminiAPI (\<lambda>code. Inr (gemini_reply (str ''Sorry, no JSON today.''))) (str ''x = 1'')
     = Inl (Error (str ''The AI returned an invalid response. Please try again.''))
   \<and> outputCode (review_handler sample_engine
        (\<lambda>code. Inr (gemini_reply (str ''Sorry, no JSON today.''))) sample_page)
      = str ''let x = 1;''
   \<and> scoreDisplay (review_handler sample_engine
        (\<lambda>code. Inr (gemini_reply (str ''Sorry, no JSON today.''))) sample_page)
      = str ''80''
   \<and> errorMessage (review_handler sample_engine
        (\<lambda>code. Inr (gemini_reply (str ''Sorry, no JSON today.''))) sample_page)
      = str ''An error occurred: The AI returned an invalid response. Please try again.''"
proof -
  let ?fetch = "\<lambda>code::jsstring. Inr (gemini_reply (str ''Sorry, no JSON today.'')) :: js_error + response"
  let ?e = "Error (str ''The AI returned an invalid response. Please try again.'')"
  let ?call = "callGeminiAPI ?fetch (str ''x = 1'')"
  have 1: "?call = Inl ?e" by code_simp
  have 2: "outputCode sample_page = str ''let x = 1;''" "scoreDisplay sample_page = str ''80''"
    by (simp_all add: sample_page_def)
  have 3: "errorMessage ((fst (review_click sample_page))
             \<lparr>errorMessage := str ''An error occurred: '' @ error_message sample_engine ?e,
               errorBox_hidden := False, loader_hidden := True, reviewBtn_disabled := False\<rparr>)
           = str ''An error occurred: The AI returned an invalid response. Please try again.''"
    by (simp add: error_message_def str_def)
  have 4: "review_click sample_page = (fst (review_click sample_page), Some (str ''x = 1''))"
    by code_simp
  have h: "review_handler sample_engine ?fetch sample_page
           = review_settled sample_engine ?call (fst (review_click sample_page))"
    unfolding review_handler_def by (subst 4) simp
  note t = failure_updates_only_the_banner [OF 1, of sample_engine "fst (review_click sample_page)"
      sample_page]
  have r: "review_settled sample_engine ?call (fst (review_click sample_page))
           = (fst (review_click sample_page))
             \<lparr>errorMessage := str ''An error occurred: '' @ error_message sample_engine ?e,
               errorBox_hidden := False, loader_hidden := True, reviewBtn_disabled := False\<rparr>"
    using t by blast
  have o: "outputCode (review_settled sample_engine ?call (fst (review_click sample_page)))
           = outputCode sample_page"
    using t by blast
  have s: "scoreDisplay (review_settled sample_engine ?call (fst (review_click sample_page)))
           = scoreDisplay sample_page"
    using t by blast
  have m: "errorMessage (review_settled sample_engine ?call (fst (review_click sample_page)))
           = str ''An error occurred: The AI returned an invalid response. Please try again.''"
    unfolding r by (rule 3)
  show ?thesis unfolding h using 1 o [unfolded 2] s [unfolded 2] m by blast
qed


section \<open>The server proxy\<close>

lemma no_candidate_no_text:
  assumes "first_candidate result = Inr None \<or> (\<exists>e. first_candidate result = Inl e)"
  shows "\<exists>e. candidate_text result = Inl e"
  using assms by (auto simp: candidate_text_def and_then_def)




text \<open>
  C10. A POST whose body is not JSON is answered with status 500 and the body
  \<open>{"error": message}\<close>, the message being the engine's for the SyntaxError. A POST for
  which the upstream answers with a success status and a reply without a first candidate
  is answered with status 500 and a body \<open>{"error": message}\<close> as well, whatever the
  request body and the key are.
\<close>

theorem proxy_failures_are_500:
  assumes "httpMethod ev = str ''POST''"
  shows "(event_body ev = Some b \<and> json_parse b = None \<longrightarrow>
            handler engine fetch apiKey ev
            = \<lparr>statusCode = 500, headers = [],
               result_body = error_body (engine (SyntaxError b))\<rparr>)
       \<and> (ok r \<and> response_json r = Inr result
            \<and> (first_candidate result = Inr None \<or> (\<exists>e. first_candidate result = Inl e)) \<longrightarrow>
            statusCode (handler engine (\<lambda>key code. Inr r) apiKey ev) = 500
            \<and> (\<exists>message. result_body (handler engine (\<lambda>key code. Inr r) apiKey ev)
                          = error_body message))"
proof (intro conjI impI)
  assume "event_body ev = Some b \<and> json_parse b = None"
  then have "handler_try fetch apiKey ev = Inl (SyntaxError b)"
    by (simp add: handler_try_def)
  then show "handler engine fetch apiKey ev
            = \<lparr>statusCode = 500, headers = [],
               result_body = error_body (engine (SyntaxError b))\<rparr>"
    using assms by (simp add: handler_def error_message_def)
next
  assume a: "ok r \<and> response_json r = Inr result
            \<and> (first_candidate result = Inr None \<or> (\<exists>e. first_candidate result = Inl e))"
  then obtain e where e: "candidate_text result = Inl e"
    using no_candidate_no_text by blast
  let ?h = "handler engine (\<lambda>key code. Inr r) apiKey ev"
  have "statusCode ?h = 500 \<and> (\<exists>message. result_body ?h = error_body message)"
  proof (cases "handler_try (\<lambda>key code. Inr r) apiKey ev")
    case (Inl err)
    then show ?thesis using assms by (auto simp: handler_def)
  next
    case (Inr res)
    then have "res = \<lparr>statusCode = 500, headers = [],
                      result_body = error_body (str ''API key is not configured on the server.'')\<rparr>"
      using a e
      by (auto simp: handler_try_def and_then_def Let_def
               split: option.splits sum.splits if_splits)
    then show ?thesis using Inr assms by (auto simp: handler_def)
  qed
  then show "statusCode ?h = 500" and "\<exists>message. result_body ?h = error_body message"
    by blast+
qed

theorem proxy_failures_are_500_witness:
  "httpMethod \<lparr>httpMethod = str ''POST'', event_body = Some (str ''code=1'')\<rparr> = str ''POST''
   \<and> json_parse (str ''code=1'') = None
   \<and> handler sample_engine (\<lambda>key code. Inl FetchFailed) (Some (str ''secret''))
        \<lparr>httpMethod = str ''POST'', event_body = Some (str ''code=1'')\<rparr>
      = \<lparr>statusCode = 500, headers = [],
         result_body = Some (JString (str ''{\"error\":\"Unexpected token c in JSON at position 0\"}''))\<rparr>
   \<and> httpMethod post_event = str ''POST''
   \<and> ok \<lparr>status = 200, statusText = str ''OK'', body = str ''{\"candidates\":[]}''\<rparr>
   \<and> response_json \<lparr>status = 200, statusText = str ''OK'', body = str ''{\"candidates\":[]}''\<rparr>
       = Inr (JObject [(str ''candidates'', JArray [])])
   \<and> first_candidate (JObject [(str ''candidates'', JArray [])]) = Inr None
   \<and> statusCode (handler sample_engine
        (\<lambda>key code. Inr \<lparr>status = 200, statusText = str ''OK'', body = str ''{\"candidates\":[]}''\<rparr>)
        (Some (str ''secret'')) post_event) = 500
   \<and> result_body (handler sample_engine
        (\<lambda>key code. Inr \<lparr>status = 200, statusText = str ''OK'', body = str ''{\"candidates\":[]}''\<rparr>)
        (Some (str ''secret'')) post_event)
       = error_body (str ''Cannot read properties of undefined (reading '' @ [39] @ str ''content''
                     @ [39] @ str '')'')"
proof -
  let ?ev = "\<lparr>httpMethod = str ''POST'', event_body = Some (str ''code=1'')\<rparr>"
  let ?r = "\<lparr>status = 200, statusText = str ''OK'', body = str ''{\"candidates\":[]}''\<rparr>"
  let ?res = "JObject [(str ''candidates'', JArray [])]"
  have 1: "httpMethod ?ev = str ''POST''" by simp
  have 2: "event_body ?ev = Some (str ''code=1'') \<and> json_parse (str ''code=1'') = None"
    by code_simp
  have 3: "ok ?r" by code_simp
  have 4: "response_json ?r = Inr ?res" by code_simp
  have 5: "first_candidate ?res = Inr None" by code_simp
  have 6: "httpMethod post_event = str ''POST''" by (simp add: post_event_def)
  have 7: "error_body (sample_engine (SyntaxError (str ''code=1'')))
           = Some (JString (str ''{\"error\":\"Unexpected token c in JSON at position 0\"}''))"
    by code_simp
  note ta = proxy_failures_are_500 [OF 1, of "str ''code=1''" sample_engine
      "\<lambda>key code. Inl FetchFailed" "Some (str ''secret'')" ?r ?res]
  note tb = proxy_failures_are_500 [OF 6, of "str ''code=1''" sample_engine
      "\<lambda>key code. Inl FetchFailed" "Some (str ''secret'')" ?r ?res]
  have a: "handler sample_engine (\<lambda>key code. Inl FetchFailed) (Some (str ''secret'')) ?ev
           = \<lparr>statusCode = 500, headers = [],
              result_body = error_body (sample_engine (SyntaxError (str ''code=1'')))\<rparr>"
    using ta 2 by blast
  have b: "statusCode (handler sample_engine (\<lambda>key code. Inr ?r) (Some (str ''secret''))
             post_event) = 500"
    using tb 3 4 5 by blast
  have c: "result_body (handler sample_engine (\<lambda>key code. Inr ?r) (Some (str ''secret''))
             post_event)
           = error_body (str ''Cannot read properties of undefined (reading '' @ [39]
               @ str ''content'' @ [39] @ str '')'')"
    by code_simp
  show ?thesis using 1 2 a [unfolded 7] 6 3 4 5 b c by blast
qed


end
